theory Spec2Isabelle
  imports Main "HOL-Library.Word"
begin


section \<open>Data model\<close>

text \<open>
  The repository holds four stand-alone programs.  Three of them
  (\<^verbatim>\<open>raceCondition.cpp\<close>, \<^verbatim>\<open>mutex.cpp\<close>, \<^verbatim>\<open>atomic.cpp\<close>) start two threads that
  each run \<^verbatim>\<open>incrementCounter\<close>, a loop of 1000000 increments of the global
  \<^verbatim>\<open>counter\<close>, join them and print the counter.  The fourth
  (\<^verbatim>\<open>simpleMultiThreading.cpp\<close>) starts two threads that each print one message.

  The C++ type \<^verbatim>\<open>int\<close> is a 32-bit two's complement integer: a \<open>32 word\<close>, read
  with \<open>sint\<close>.  The number of threads and the loop bound, which the sources fix
  at 2 and 1000000, are parameters \<open>t\<close> and \<open>n\<close> of the model; the loop bound has
  the type of the loop variable it is compared with.
\<close>

type_synonym int32 = "32 word"

text \<open>The three counter programs differ only in how the increment is protected.\<close>

datatype regime = NONE | MUTEX | ATOMIC

text \<open>
  Program points of \<^verbatim>\<open>incrementCounter\<close>.  Every access to shared memory is a
  step of its own, so that steps of different threads interleave between the
  read and the write of \<^verbatim>\<open>counter++\<close>:
  \<^item> \<open>Test\<close>: before the loop test \<^verbatim>\<open>i < 1000000\<close>;
  \<^item> \<open>Lock\<close>: before the constructor of the \<^verbatim>\<open>lock_guard\<close> (mutex.cpp only);
  \<^item> \<open>Load\<close>, \<open>Store\<close>: before the read and before the write of \<^verbatim>\<open>counter++\<close>
    on the plain \<^verbatim>\<open>int\<close> (raceCondition.cpp, mutex.cpp);
  \<^item> \<open>Unlock\<close>: before the destructor of the \<^verbatim>\<open>lock_guard\<close> at the end of the
    loop body (mutex.cpp only);
  \<^item> \<open>FetchAdd\<close>: before \<^verbatim>\<open>counter.fetch_add(1)\<close> (atomic.cpp only);
  \<^item> \<open>Incr\<close>: before \<^verbatim>\<open>i++\<close>;
  \<^item> \<open>Done\<close>: the function has returned.
\<close>

datatype pc = Test | Lock | Load | Store | Unlock | FetchAdd | Incr | Done

record worker =
  wpc :: pc
  i :: int32
  tmp :: int32

text \<open>Program points of \<^verbatim>\<open>main\<close>: creating the threads, joining thread \<open>k\<close>,
  printing, returning, and after the return.\<close>

datatype main_pc = MSpawn | MJoin nat | MPrint | MReturn | MExit

record state =
  counter :: int32
  mtx :: "nat option"
  workers :: "worker list"
  mpc :: main_pc
  out :: string
  exit_code :: "int option"

datatype actor = Main | Worker nat

section \<open>The sequential loop of incrementCounter\<close>

text \<open>
  \<^verbatim>\<open>for (int i = 0; i < 1000000; i++) { counter++; }\<close> run by one thread alone.
  With no other thread, the three protections of the increment all amount to
  adding one to the counter.
\<close>

function incrementCounter_loop :: "int32 \<Rightarrow> int32 \<Rightarrow> int32 \<Rightarrow> int32" where
  "incrementCounter_loop n j c =
     (if sint j < sint n then incrementCounter_loop n (j + 1) (c + 1) else c)"
  by pat_completeness auto

lemma sint_succ_less: "sint (j :: int32) < sint (n :: int32) \<Longrightarrow> sint (j + 1) = sint j + 1"
proof -
  assume a: "sint j < sint n"
  have "sint n < 2 ^ 31" using sint_lt [of n] by simp
  moreover have "- (2 ^ 31) \<le> sint j" using sint_ge [of j] by simp
  ultimately have "- (2 ^ 31) \<le> sint j + 1 \<and> sint j + 1 < 2 ^ 31" using a by simp
  then have "signed_take_bit 31 (sint j + 1) = sint j + 1"
    by (simp add: signed_take_bit_int_eq_self)
  then show ?thesis by (simp add: sint_word_ariths)
qed

termination incrementCounter_loop
  by (relation "measure (\<lambda>(n, j, c). nat (sint n - sint j))")
     (simp_all add: sint_succ_less)

declare incrementCounter_loop.simps [simp del]

definition incrementCounter :: "int32 \<Rightarrow> int32 \<Rightarrow> int32" where
  "incrementCounter n c = incrementCounter_loop n 0 c"

section \<open>The counter programs as a transition system\<close>

text \<open>
  A state holds the globals (\<open>counter\<close>, and for mutex.cpp the owner of \<open>mtx\<close>),
  the local state of every thread created so far, the program point of \<^verbatim>\<open>main\<close>,
  the text written to standard output and the exit code once \<^verbatim>\<open>main\<close> has returned.
  A run is an interleaving of steps of \<^verbatim>\<open>main\<close> and of the threads, one shared-memory
  access per step, each access seeing the latest write.  For raceCondition.cpp this
  is the reading of \<^verbatim>\<open>counter++\<close> as the statement is written, a read of the counter
  followed by a write of the value read plus one, with nothing to keep another
  thread from moving in between.  The increment of the plain \<^verbatim>\<open>int\<close> wraps around like
  the atomic one does; for the constants of the sources it never comes to that.
\<close>

definition init :: state where
  "init = \<lparr>counter = 0, mtx = None, workers = [], mpc = MSpawn, out = [], exit_code = None\<rparr>"

text \<open>The thread object's constructor starts \<^verbatim>\<open>incrementCounter\<close> with \<^verbatim>\<open>int i = 0\<close>.\<close>

definition new_worker :: worker where
  "new_worker = \<lparr>wpc = Test, i = 0, tmp = 0\<rparr>"

text \<open>The first program point of the loop body, per source file.\<close>

fun body_entry :: "regime \<Rightarrow> pc" where
  "body_entry NONE = Load"
| "body_entry MUTEX = Lock"
| "body_entry ATOMIC = FetchAdd"

text \<open>
  One step of thread \<open>k\<close> in \<^verbatim>\<open>incrementCounter\<close>; \<open>None\<close> when the thread cannot
  move (it waits for the mutex, or it has returned).
\<close>

definition incrementCounter_step :: "regime \<Rightarrow> int32 \<Rightarrow> nat \<Rightarrow> state \<Rightarrow> state option" where
  "incrementCounter_step R n k s =
     (let w = workers s ! k in
      case wpc w of
        Test \<Rightarrow>
          Some (s\<lparr>workers := (workers s)[k := w\<lparr>wpc := (if sint (i w) < sint n then body_entry R else Done)\<rparr>]\<rparr>)
      | Lock \<Rightarrow>
          (case mtx s of
             None \<Rightarrow> Some (s\<lparr>mtx := Some k, workers := (workers s)[k := w\<lparr>wpc := Load\<rparr>]\<rparr>)
           | Some _ \<Rightarrow> None)
      | Load \<Rightarrow>
          Some (s\<lparr>workers := (workers s)[k := w\<lparr>tmp := counter s, wpc := Store\<rparr>]\<rparr>)
      | Store \<Rightarrow>
          Some (s\<lparr>counter := tmp w + 1,
                 workers := (workers s)[k := w\<lparr>wpc := (if R = MUTEX then Unlock else Incr)\<rparr>]\<rparr>)
      | Unlock \<Rightarrow>
          Some (s\<lparr>mtx := None, workers := (workers s)[k := w\<lparr>wpc := Incr\<rparr>]\<rparr>)
      | FetchAdd \<Rightarrow>
          Some (s\<lparr>counter := counter s + 1, workers := (workers s)[k := w\<lparr>wpc := Incr\<rparr>]\<rparr>)
      | Incr \<Rightarrow>
          Some (s\<lparr>workers := (workers s)[k := w\<lparr>i := i w + 1, wpc := Test\<rparr>]\<rparr>)
      | Done \<Rightarrow> None)"

subsection \<open>Printing an int\<close>

definition digit_char :: "nat \<Rightarrow> char" where
  "digit_char d = ''0123456789'' ! d"

fun show_nat :: "nat \<Rightarrow> string" where
  "show_nat m = (if m < 10 then [digit_char m] else show_nat (m div 10) @ [digit_char (m mod 10)])"

declare show_nat.simps [simp del]

definition show_int :: "int \<Rightarrow> string" where
  "show_int v = (if v < 0 then CHR ''-'' # show_nat (nat (- v)) else show_nat (nat v))"

text \<open>\<^verbatim>\<open>std::cout << "Final counter value: " << counter << std::endl\<close>: the text, the
  decimal value of the counter and a newline.\<close>

definition print_counter :: "int32 \<Rightarrow> string" where
  "print_counter c = ''Final counter value: '' @ show_int (sint c) @ [CHR 0x0A]"

subsection \<open>main\<close>

text \<open>
  \<^verbatim>\<open>main\<close> creates the threads one after the other, joins them in the same order
  (a join can only complete once the joined thread has returned), prints the
  counter and returns 0.  The sources write this out for two threads, \<^verbatim>\<open>t1\<close> and
  \<^verbatim>\<open>t2\<close>; the model counts through \<open>t\<close> threads, thread \<open>k\<close> of the model being the
  \<open>k + 1\<close>-th of the source, and moves from creating to joining and from joining
  to printing in a step of its own.
\<close>

definition main_step :: "nat \<Rightarrow> state \<Rightarrow> state option" where
  "main_step t s =
     (case mpc s of
        MSpawn \<Rightarrow>
          if length (workers s) < t then Some (s\<lparr>workers := workers s @ [new_worker]\<rparr>)
          else Some (s\<lparr>mpc := MJoin 0\<rparr>)
      | MJoin k \<Rightarrow>
          if k < t then
            (if k < length (workers s) \<and> wpc (workers s ! k) = Done then Some (s\<lparr>mpc := MJoin (Suc k)\<rparr>)
             else None)
          else Some (s\<lparr>mpc := MPrint\<rparr>)
      | MPrint \<Rightarrow> Some (s\<lparr>out := out s @ print_counter (counter s), mpc := MReturn\<rparr>)
      | MReturn \<Rightarrow> Some (s\<lparr>exit_code := Some 0, mpc := MExit\<rparr>)
      | MExit \<Rightarrow> None)"

fun step :: "regime \<Rightarrow> nat \<Rightarrow> int32 \<Rightarrow> actor \<Rightarrow> state \<Rightarrow> state option" where
  "step R t n Main s = main_step t s"
| "step R t n (Worker k) s =
     (if k < length (workers s) then incrementCounter_step R n k s else None)"

text \<open>Running a schedule: the list of actors that move, in order.\<close>

fun run :: "regime \<Rightarrow> nat \<Rightarrow> int32 \<Rightarrow> actor list \<Rightarrow> state \<Rightarrow> state option" where
  "run R t n [] s = Some s"
| "run R t n (a # as) s =
     (case step R t n a s of None \<Rightarrow> None | Some s' \<Rightarrow> run R t n as s')"

inductive reachable :: "regime \<Rightarrow> nat \<Rightarrow> int32 \<Rightarrow> state \<Rightarrow> bool" for R t n where
  start: "reachable R t n init"
| move: "reachable R t n s \<Longrightarrow> step R t n a s = Some s' \<Longrightarrow> reachable R t n s'"

section \<open>simpleMultiThreading.cpp as a transition system\<close>

text \<open>
  \<^verbatim>\<open>printMessage(id)\<close> is one statement,
  \<^verbatim>\<open>std::cout << "Thread " << id << " is running\n"\<close>: three insertions into the
  shared stream, one after the other.  Each insertion is a step of its own, so the
  insertions of two threads can interleave.  Program points: before each of the
  three insertions, and returned.
\<close>

datatype ppc = PThread | PId | PRunning | PDone

record printer =
  ppc :: ppc
  pid :: int32

text \<open>Program points of this program's \<^verbatim>\<open>main\<close>, which prints nothing itself.\<close>

datatype pmain_pc = PSpawn | PJoin nat | PReturn | PExit

record pstate =
  printers :: "printer list"
  pmpc :: pmain_pc
  pout :: string
  pexit_code :: "int option"

definition pinit :: pstate where
  "pinit = \<lparr>printers = [], pmpc = PSpawn, pout = [], pexit_code = None\<rparr>"

text \<open>The three pieces of text \<^verbatim>\<open>printMessage(id)\<close> inserts, in order.\<close>

definition message :: "int32 \<Rightarrow> string list" where
  "message v = [''Thread '', show_int (sint v), '' is running'' @ [CHR 0x0A]]"

definition printMessage_step :: "nat \<Rightarrow> pstate \<Rightarrow> pstate option" where
  "printMessage_step k s =
     (let p = printers s ! k in
      case ppc p of
        PThread \<Rightarrow>
          Some (s\<lparr>pout := pout s @ ''Thread '', printers := (printers s)[k := p\<lparr>ppc := PId\<rparr>]\<rparr>)
      | PId \<Rightarrow>
          Some (s\<lparr>pout := pout s @ show_int (sint (pid p)),
                 printers := (printers s)[k := p\<lparr>ppc := PRunning\<rparr>]\<rparr>)
      | PRunning \<Rightarrow>
          Some (s\<lparr>pout := pout s @ '' is running'' @ [CHR 0x0A],
                 printers := (printers s)[k := p\<lparr>ppc := PDone\<rparr>]\<rparr>)
      | PDone \<Rightarrow> None)"

text \<open>
  \<^verbatim>\<open>main\<close> creates thread \<open>k\<close> (counting from 0) with the argument \<open>k + 1\<close>, joins the
  threads in the order of their creation and returns 0.
\<close>

definition simple_main_step :: "nat \<Rightarrow> pstate \<Rightarrow> pstate option" where
  "simple_main_step t s =
     (case pmpc s of
        PSpawn \<Rightarrow>
          if length (printers s) < t
          then Some (s\<lparr>printers := printers s @ [\<lparr>ppc = PThread, pid = of_nat (length (printers s)) + 1\<rparr>]\<rparr>)
          else Some (s\<lparr>pmpc := PJoin 0\<rparr>)
      | PJoin k \<Rightarrow>
          if k < t then
            (if k < length (printers s) \<and> ppc (printers s ! k) = PDone then Some (s\<lparr>pmpc := PJoin (Suc k)\<rparr>)
             else None)
          else Some (s\<lparr>pmpc := PReturn\<rparr>)
      | PReturn \<Rightarrow> Some (s\<lparr>pexit_code := Some 0, pmpc := PExit\<rparr>)
      | PExit \<Rightarrow> None)"

fun pstep :: "nat \<Rightarrow> actor \<Rightarrow> pstate \<Rightarrow> pstate option" where
  "pstep t Main s = simple_main_step t s"
| "pstep t (Worker k) s = (if k < length (printers s) then printMessage_step k s else None)"

fun prun :: "nat \<Rightarrow> actor list \<Rightarrow> pstate \<Rightarrow> pstate option" where
  "prun t [] s = Some s"
| "prun t (a # as) s = (case pstep t a s of None \<Rightarrow> None | Some s' \<Rightarrow> prun t as s')"

inductive preachable :: "nat \<Rightarrow> pstate \<Rightarrow> bool" for t where
  pstart: "preachable t pinit"
| pmove: "preachable t s \<Longrightarrow> pstep t a s = Some s' \<Longrightarrow> preachable t s'"

text \<open>The number of newline characters of a text: its number of complete lines.\<close>

definition count_lines :: "string \<Rightarrow> nat" where
  "count_lines xs = length (filter (\<lambda>c. c = CHR 0x0A) xs)"

section \<open>Invariants and measures\<close>

subsection \<open>The loop of a thread\<close>

text \<open>The number of iterations of the loop with bound \<open>n\<close>: none when \<open>n\<close> is negative.\<close>

definition iters :: "int32 \<Rightarrow> nat" where
  "iters n = nat (sint n)"

text \<open>
  The program points each source file has, and what holds of a thread's loop
  variable at each of them: it never exceeds the bound, it is below the bound inside
  the loop body, and it has reached the bound once the function has returned.
\<close>

fun regime_pcs :: "regime \<Rightarrow> pc set" where
  "regime_pcs NONE = {Test, Load, Store, Incr, Done}"
| "regime_pcs MUTEX = {Test, Lock, Load, Store, Unlock, Incr, Done}"
| "regime_pcs ATOMIC = {Test, FetchAdd, Incr, Done}"

definition worker_ok :: "regime \<Rightarrow> int32 \<Rightarrow> worker \<Rightarrow> bool" where
  "worker_ok R n w \<longleftrightarrow>
     wpc w \<in> regime_pcs R \<and> unat (i w) \<le> iters n \<and>
     (wpc w \<noteq> Test \<and> wpc w \<noteq> Done \<longrightarrow> unat (i w) < iters n) \<and>
     (wpc w = Done \<longrightarrow> unat (i w) = iters n)"

text \<open>
  The increments a thread has completed: one per finished iteration, and one more
  when the thread has written the counter in the current iteration (it is at the
  unlock or at \<^verbatim>\<open>i++\<close>).  \<open>increments\<close> adds them up over all threads.
\<close>

definition credit :: "worker \<Rightarrow> nat" where
  "credit w = (if wpc w = Unlock \<or> wpc w = Incr then 1 else 0)"

definition incs :: "worker \<Rightarrow> nat" where
  "incs w = unat (i w) + credit w"

definition increments :: "state \<Rightarrow> nat" where
  "increments s = sum_list (map incs (workers s))"

subsection \<open>main\<close>

text \<open>
  What holds at each program point of \<^verbatim>\<open>main\<close>: the threads joined so far have
  returned, nothing is printed before all of them have, and the line printed is the
  counter's value from then on.
\<close>

definition all_done :: "state \<Rightarrow> bool" where
  "all_done s \<longleftrightarrow> (\<forall>w \<in> set (workers s). wpc w = Done)"

definition main_inv :: "nat \<Rightarrow> state \<Rightarrow> bool" where
  "main_inv t s \<longleftrightarrow>
     length (workers s) \<le> t \<and>
     (case mpc s of
        MSpawn \<Rightarrow> out s = [] \<and> exit_code s = None
      | MJoin k \<Rightarrow> length (workers s) = t \<and> k \<le> t \<and> (\<forall>j<k. wpc (workers s ! j) = Done) \<and>
          out s = [] \<and> exit_code s = None
      | MPrint \<Rightarrow> length (workers s) = t \<and> all_done s \<and> out s = [] \<and> exit_code s = None
      | MReturn \<Rightarrow> length (workers s) = t \<and> all_done s \<and>
          out s = print_counter (counter s) \<and> exit_code s = None
      | MExit \<Rightarrow> length (workers s) = t \<and> all_done s \<and>
          out s = print_counter (counter s) \<and> exit_code s = Some 0)"

subsection \<open>mutex.cpp\<close>

text \<open>
  A thread is in the critical section from the constructor of the \<^verbatim>\<open>lock_guard\<close> to
  its destructor.  The invariant: the owner of the mutex is the thread in the
  critical section, and a thread about to write holds the counter's current value.
\<close>

definition in_cs :: "worker \<Rightarrow> bool" where
  "in_cs w \<longleftrightarrow> wpc w = Load \<or> wpc w = Store \<or> wpc w = Unlock"

definition mutex_inv :: "state \<Rightarrow> bool" where
  "mutex_inv s \<longleftrightarrow>
     (\<forall>k<length (workers s). in_cs (workers s ! k) \<longleftrightarrow> mtx s = Some k) \<and>
     (\<forall>k. mtx s = Some k \<longrightarrow> k < length (workers s)) \<and>
     (\<forall>k<length (workers s). wpc (workers s ! k) = Store \<longrightarrow> tmp (workers s ! k) = counter s)"

subsection \<open>raceCondition.cpp\<close>

text \<open>
  Without the lock a thread may write a stale value.  What remains true: neither the
  counter nor a value a thread is about to write exceeds the increments completed.
\<close>

definition none_inv :: "state \<Rightarrow> bool" where
  "none_inv s \<longleftrightarrow>
     unat (counter s) \<le> increments s \<and>
     (\<forall>k<length (workers s). wpc (workers s ! k) = Store \<longrightarrow> unat (tmp (workers s ! k)) \<le> increments s)"

text \<open>
  For the lower bound.  A thread is \<open>early\<close> until it has read the counter in its
  second iteration and written it.  Once a first write has happened the counter is
  at least 1, so every write from a second iteration on stores at least 2; and the
  counter can drop below 2 only through a thread that has its second write still to
  come.
\<close>

definition early :: "worker \<Rightarrow> bool" where
  "early w \<longleftrightarrow>
     (unat (i w) = 0 \<and> wpc w \<noteq> Done) \<or>
     (unat (i w) = 1 \<and> (wpc w = Test \<or> wpc w = Load \<or> wpc w = Store))"

definition low_inv :: "int32 \<Rightarrow> state \<Rightarrow> bool" where
  "low_inv n s \<longleftrightarrow>
     (1 \<le> increments s \<longrightarrow> 1 \<le> unat (counter s)) \<and>
     (\<forall>k<length (workers s).
        wpc (workers s ! k) = Store \<and> 1 \<le> unat (i (workers s ! k)) \<longrightarrow>
        1 \<le> unat (tmp (workers s ! k))) \<and>
     (2 \<le> iters n \<longrightarrow>
        workers s = [] \<or> (\<exists>k<length (workers s). early (workers s ! k)) \<or> 2 \<le> unat (counter s))"

text \<open>With one thread only, the value read is still the counter's when it is written.\<close>

definition alone_inv :: "state \<Rightarrow> bool" where
  "alone_inv s \<longleftrightarrow>
     counter s = of_nat (increments s) \<and>
     (\<forall>k<length (workers s). wpc (workers s ! k) = Store \<longrightarrow> tmp (workers s ! k) = counter s)"

subsection \<open>Termination\<close>

text \<open>
  An upper bound on the number of steps a run still has: what is left of every
  created thread's loop, of every thread \<^verbatim>\<open>main\<close> has still to create, and of
  \<^verbatim>\<open>main\<close> itself.  \<open>run_ends\<close>: a state other than the exit has a step, and every
  step lowers the bound; so every run reaches the exit, whatever the schedule.
\<close>

fun wrank :: "pc \<Rightarrow> nat" where
  "wrank Test = 7"
| "wrank Lock = 6"
| "wrank Load = 5"
| "wrank Store = 4"
| "wrank Unlock = 3"
| "wrank FetchAdd = 4"
| "wrank Incr = 1"
| "wrank Done = 0"

definition wmeasure :: "int32 \<Rightarrow> worker \<Rightarrow> nat" where
  "wmeasure n w = (iters n - unat (i w)) * 8 + wrank (wpc w)"

fun mrank :: "nat \<Rightarrow> main_pc \<Rightarrow> nat" where
  "mrank t MSpawn = t + 4"
| "mrank t (MJoin k) = (t - k) + 3"
| "mrank t MPrint = 2"
| "mrank t MReturn = 1"
| "mrank t MExit = 0"

definition steps_left :: "nat \<Rightarrow> int32 \<Rightarrow> state \<Rightarrow> nat" where
  "steps_left t n s =
     mrank t (mpc s) + sum_list (map (wmeasure n) (workers s)) +
     (t - length (workers s)) * (iters n * 8 + 8)"

definition run_ends :: "regime \<Rightarrow> nat \<Rightarrow> int32 \<Rightarrow> state \<Rightarrow> bool" where
  "run_ends R t n s \<longleftrightarrow>
     (mpc s \<noteq> MExit \<longrightarrow> (\<exists>a s'. step R t n a s = Some s')) \<and>
     (\<forall>a s'. step R t n a s = Some s' \<longrightarrow> steps_left t n s' < steps_left t n s)"

subsection \<open>simpleMultiThreading.cpp\<close>

text \<open>
  \<open>emitted k\<close> is the part of its message thread \<open>k\<close> has inserted so far.  The
  invariants: thread \<open>k\<close> was given the identifier \<open>k + 1\<close>, \<^verbatim>\<open>main\<close> is past the join of
  a thread only when it has returned, and the output is an interleaving of what the
  two threads have inserted.
\<close>

fun sent :: "ppc \<Rightarrow> nat" where
  "sent PThread = 0"
| "sent PId = 1"
| "sent PRunning = 2"
| "sent PDone = 3"

definition emitted :: "nat \<Rightarrow> pstate \<Rightarrow> string list" where
  "emitted k s =
     (if k < length (printers s)
      then take (sent (ppc (printers s ! k))) (message (pid (printers s ! k))) else [])"

definition pall_done :: "pstate \<Rightarrow> bool" where
  "pall_done s \<longleftrightarrow> (\<forall>p \<in> set (printers s). ppc p = PDone)"

definition pmain_inv :: "nat \<Rightarrow> pstate \<Rightarrow> bool" where
  "pmain_inv t s \<longleftrightarrow>
     length (printers s) \<le> t \<and>
     (\<forall>k<length (printers s). pid (printers s ! k) = of_nat k + 1) \<and>
     (case pmpc s of
        PSpawn \<Rightarrow> pexit_code s = None
      | PJoin k \<Rightarrow> length (printers s) = t \<and> k \<le> t \<and>
          (\<forall>j<k. ppc (printers s ! j) = PDone) \<and> pexit_code s = None
      | PReturn \<Rightarrow> length (printers s) = t \<and> pall_done s \<and> pexit_code s = None
      | PExit \<Rightarrow> length (printers s) = t \<and> pall_done s \<and> pexit_code s = Some 0)"

definition pout_inv :: "pstate \<Rightarrow> bool" where
  "pout_inv s \<longleftrightarrow> pout s \<in> concat ` shuffles (emitted 0 s) (emitted 1 s)"

fun pmrank :: "nat \<Rightarrow> pmain_pc \<Rightarrow> nat" where
  "pmrank t PSpawn = t + 3"
| "pmrank t (PJoin k) = (t - k) + 2"
| "pmrank t PReturn = 1"
| "pmrank t PExit = 0"

definition psteps_left :: "nat \<Rightarrow> pstate \<Rightarrow> nat" where
  "psteps_left t s =
     pmrank t (pmpc s) + sum_list (map (\<lambda>p. 3 - sent (ppc p)) (printers s)) +
     (t - length (printers s)) * 4"

definition prun_ends :: "nat \<Rightarrow> pstate \<Rightarrow> bool" where
  "prun_ends t s \<longleftrightarrow>
     (pmpc s \<noteq> PExit \<longrightarrow> (\<exists>a s'. pstep t a s = Some s')) \<and>
     (\<forall>a s'. pstep t a s = Some s' \<longrightarrow> psteps_left t s' < psteps_left t s)"

text \<open>
  The output as a function of the schedule.  \<open>said\<close> is the order in which the
  threads move; \<open>replay\<close> writes, for each move of thread \<open>k\<close>, the next piece of the
  message of thread \<open>k\<close>, given how many pieces each thread has inserted already
  (\<open>inserted\<close>).
\<close>

fun said :: "actor list \<Rightarrow> nat list" where
  "said [] = []"
| "said (Main # as) = said as"
| "said (Worker k # as) = k # said as"

fun replay :: "nat list \<Rightarrow> (nat \<Rightarrow> nat) \<Rightarrow> string" where
  "replay [] c = []"
| "replay (k # ks) c = message (of_nat k + 1) ! c k @ replay ks (c(k := Suc (c k)))"

definition inserted :: "pstate \<Rightarrow> nat \<Rightarrow> nat" where
  "inserted s k = (if k < length (printers s) then sent (ppc (printers s ! k)) else 0)"

subsection \<open>Schedules and states of the examples\<close>

text \<open>atomic.cpp with one iteration per thread, the threads taking turns, to the exit.\<close>

definition sched_atomic :: "actor list" where
  "sched_atomic = [Main, Main, Worker 0, Worker 1, Worker 0, Worker 1, Main, Worker 1, Worker 0,
     Worker 0, Worker 1, Main, Main, Main, Main, Main]"

text \<open>mutex.cpp: thread 0 holds the lock and is about to write; thread 1 waits for it.\<close>

definition sched_mutex :: "actor list" where
  "sched_mutex = [Main, Main, Worker 0, Worker 0, Worker 1, Worker 0]"

definition mutex_before :: state where
  "mutex_before =
     \<lparr>counter = 0, mtx = Some 0,
      workers = [\<lparr>wpc = Store, i = 0, tmp = 0\<rparr>, \<lparr>wpc = Lock, i = 0, tmp = 0\<rparr>],
      mpc = MSpawn, out = [], exit_code = None\<rparr>"

definition mutex_after :: state where
  "mutex_after =
     \<lparr>counter = 1, mtx = Some 0,
      workers = [\<lparr>wpc = Unlock, i = 0, tmp = 0\<rparr>, \<lparr>wpc = Lock, i = 0, tmp = 0\<rparr>],
      mpc = MSpawn, out = [], exit_code = None\<rparr>"

text \<open>A thread of raceCondition.cpp about to write, one of atomic.cpp about to add.\<close>

definition sched_none_store :: "actor list" where
  "sched_none_store = [Main, Main, Worker 0, Worker 0, Worker 0, Worker 0, Worker 0, Worker 0]"

definition sched_atomic_add :: "actor list" where
  "sched_atomic_add = [Main, Main, Worker 1, Worker 1, Worker 1, Worker 1]"

text \<open>
  raceCondition.cpp with three iterations per thread: thread 0 reads 0; thread 1
  runs two iterations; thread 0 writes 1; thread 1 reads 1; thread 0 runs to its
  end; thread 1 writes 2 and ends; \<^verbatim>\<open>main\<close> joins, prints and returns.
\<close>

definition sched_lost :: "actor list" where
  "sched_lost =
     [Main, Main,
      Worker 0, Worker 0,
      Worker 1, Worker 1, Worker 1, Worker 1, Worker 1, Worker 1, Worker 1, Worker 1,
      Worker 0, Worker 0,
      Worker 1, Worker 1,
      Worker 0, Worker 0, Worker 0, Worker 0, Worker 0, Worker 0, Worker 0, Worker 0, Worker 0,
      Worker 1, Worker 1, Worker 1,
      Main, Main, Main, Main, Main, Main]"

definition lost_final :: state where
  "lost_final =
     \<lparr>counter = 2, mtx = None,
      workers = [\<lparr>wpc = Done, i = 3, tmp = 2\<rparr>, \<lparr>wpc = Done, i = 3, tmp = 1\<rparr>],
      mpc = MExit, out = ''Final counter value: 2'' @ [CHR 0x0A], exit_code = Some 0\<rparr>"

text \<open>
  raceCondition.cpp with the constants of the source: thread 0 reads 0, thread 1 runs
  two iterations; thread 0's next step writes 1 over the 2.
\<close>

definition sched_stale :: "actor list" where
  "sched_stale =
     [Main, Main,
      Worker 0, Worker 0,
      Worker 1, Worker 1, Worker 1, Worker 1, Worker 1, Worker 1, Worker 1, Worker 1]"

definition stale_before :: state where
  "stale_before =
     \<lparr>counter = 2, mtx = None,
      workers = [\<lparr>wpc = Store, i = 0, tmp = 0\<rparr>, \<lparr>wpc = Test, i = 2, tmp = 1\<rparr>],
      mpc = MSpawn, out = [], exit_code = None\<rparr>"

definition stale_after :: state where
  "stale_after =
     \<lparr>counter = 1, mtx = None,
      workers = [\<lparr>wpc = Incr, i = 0, tmp = 0\<rparr>, \<lparr>wpc = Test, i = 2, tmp = 1\<rparr>],
      mpc = MSpawn, out = [], exit_code = None\<rparr>"

text \<open>
  simpleMultiThreading.cpp: the two threads inserting alternately, and one after the
  other.
\<close>

definition sched_mixed :: "actor list" where
  "sched_mixed = [Main, Main, Worker 0, Worker 1, Worker 0, Worker 1, Worker 0, Worker 1,
     Main, Main, Main, Main, Main]"

definition mixed_final :: pstate where
  "mixed_final =
     \<lparr>printers = [\<lparr>ppc = PDone, pid = 1\<rparr>, \<lparr>ppc = PDone, pid = 2\<rparr>], pmpc = PExit,
      pout = ''Thread Thread 12 is running'' @ [CHR 0x0A] @ '' is running'' @ [CHR 0x0A],
      pexit_code = Some 0\<rparr>"

definition sched_in_turn :: "actor list" where
  "sched_in_turn = [Main, Main, Worker 0, Worker 0, Worker 0, Worker 1, Worker 1, Worker 1,
     Main, Main, Main, Main, Main]"

definition in_turn_final :: pstate where
  "in_turn_final =
     \<lparr>printers = [\<lparr>ppc = PDone, pid = 1\<rparr>, \<lparr>ppc = PDone, pid = 2\<rparr>], pmpc = PExit,
      pout = ''Thread 1 is running'' @ [CHR 0x0A] @ ''Thread 2 is running'' @ [CHR 0x0A],
      pexit_code = Some 0\<rparr>"

definition sched_mutex_release :: "actor list" where
  "sched_mutex_release = sched_mutex @ [Worker 0, Worker 0]"

definition mutex_released :: state where
  "mutex_released =
     \<lparr>counter = 1, mtx = None,
      workers = [\<lparr>wpc = Incr, i = 0, tmp = 0\<rparr>, \<lparr>wpc = Lock, i = 0, tmp = 0\<rparr>],
      mpc = MSpawn, out = [], exit_code = None\<rparr>"

text \<open>The two threads one after the other, thread 1 first.\<close>

definition sched_in_turn_rev :: "actor list" where
  "sched_in_turn_rev = [Main, Main, Worker 1, Worker 1, Worker 1, Worker 0, Worker 0, Worker 0,
     Main, Main, Main, Main, Main]"

definition in_turn_rev_final :: pstate where
  "in_turn_rev_final =
     \<lparr>printers = [\<lparr>ppc = PDone, pid = 1\<rparr>, \<lparr>ppc = PDone, pid = 2\<rparr>], pmpc = PExit,
      pout = ''Thread 2 is running'' @ [CHR 0x0A] @ ''Thread 1 is running'' @ [CHR 0x0A],
      pexit_code = Some 0\<rparr>"

section \<open>Loop arithmetic on 32-bit integers\<close>

lemma uint_small: "unat (j :: int32) < 2 ^ 31 \<Longrightarrow> uint j < 2 ^ 31"
proof -
  assume a: "unat j < 2 ^ 31"
  have "int (unat j) < int (2 ^ 31)" using a by (rule iffD2 [OF of_nat_less_iff])
  then show ?thesis by (simp only: uint_nat) simp
qed

lemma sint_unat_small: "unat (j :: int32) < 2 ^ 31 \<Longrightarrow> sint j = int (unat j)"
proof -
  assume a: "unat j < 2 ^ 31"
  have b: "uint j < 2 ^ 31" using a by (rule uint_small)
  have c: "- (2 ^ 31) \<le> uint j"
  proof -
    have "(0 :: int) \<le> uint j" by simp
    moreover have "- (2 ^ 31) \<le> (0 :: int)" by simp
    ultimately show ?thesis by (rule order_trans [rotated])
  qed
  have "sint j = signed_take_bit 31 (uint j)" by (simp add: sint_uint)
  also have "\<dots> = uint j"
    using c b by (rule signed_take_bit_int_eq_self)
  also have "\<dots> = int (unat j)" by (rule uint_nat)
  finally show ?thesis .
qed


lemma iters_bound: "iters n < 2 ^ 31"
proof -
  have "sint n < 2 ^ 31" using sint_lt [of n] by simp
  then show ?thesis unfolding iters_def by simp
qed

lemma loop_test: "unat (j :: int32) \<le> iters n \<Longrightarrow> (sint j < sint n) = (unat j < iters n)"
proof -
  assume a: "unat j \<le> iters n"
  have "unat j < 2 ^ 31" using a iters_bound [of n] by (rule le_less_trans)
  then have "sint j = int (unat j)" by (rule sint_unat_small)
  then show ?thesis unfolding iters_def by linarith
qed

lemma loop_incr: "unat (j :: int32) < iters n \<Longrightarrow> unat (j + 1) = Suc (unat j)"
proof -
  assume a: "unat j < iters n"
  have "iters n < 2147483648" using iters_bound [of n] by simp
  then have "unat j + unat (1 :: int32) < 2 ^ LENGTH(32)" using a by simp
  then have "unat (j + 1) = unat j + unat (1 :: int32)"
    by (rule iffD1 [OF unat_add_lem])
  then show ?thesis by simp
qed

lemma incrementCounter_loop_eq:
  "unat (j :: int32) \<le> iters n \<Longrightarrow> incrementCounter_loop n j c = c + of_nat (iters n - unat j)"
proof (induction n j c rule: incrementCounter_loop.induct)
  case (1 n j c)
  show ?case
  proof (cases "sint j < sint n")
    case True
    then have lt: "unat j < iters n" using "1.prems" by (simp add: loop_test)
    then have s: "unat (j + 1) = Suc (unat j)" by (rule loop_incr)
    have d: "iters n - unat j = Suc (iters n - Suc (unat j))" using lt by simp
    have "incrementCounter_loop n j c = incrementCounter_loop n (j + 1) (c + 1)"
      using True by (subst incrementCounter_loop.simps) simp
    also have "\<dots> = c + 1 + of_nat (iters n - unat (j + 1))"
      using "1.IH" [OF True] lt s by simp
    also have "\<dots> = c + of_nat (iters n - unat j)"
      unfolding s d by simp
    finally show ?thesis .
  next
    case False
    then have "unat j = iters n" using "1.prems" by (simp add: loop_test)
    then show ?thesis using False by (subst incrementCounter_loop.simps) simp
  qed
qed

lemma iters_word: "0 \<le> sint n \<Longrightarrow> word_of_nat (iters n) = (n :: int32)"
proof -
  assume a: "0 \<le> sint n"
  have "(word_of_nat (nat (sint n)) :: int32) = word_of_int (int (nat (sint n)))"
    by simp
  also have "\<dots> = word_of_int (sint n)" using a by simp
  also have "\<dots> = n" by simp
  finally show ?thesis by (simp only: iters_def)
qed

lemma sint_add_small:
  "- (2 ^ 31) \<le> sint (c :: int32) + sint (n :: int32) \<Longrightarrow> sint c + sint n < 2 ^ 31 \<Longrightarrow>
   sint (c + n) = sint c + sint n"
proof -
  assume a: "- (2 ^ 31) \<le> sint c + sint n" and b: "sint c + sint n < 2 ^ 31"
  have "sint (c + n) = signed_take_bit 31 (sint c + sint n)"
    by (simp add: sint_word_ariths)
  also have "\<dots> = sint c + sint n" using a b by (rule signed_take_bit_int_eq_self)
  finally show ?thesis .
qed


section \<open>Every thread stays inside its loop bounds\<close>

lemma worker_step_ok:
  assumes "incrementCounter_step R n k s = Some s'" and "worker_ok R n (workers s ! k)"
    and "k < length (workers s)"
  shows "workers s' = (workers s)[k := workers s' ! k] \<and> worker_ok R n (workers s' ! k)"
proof (cases "wpc (workers s ! k)")
  case Test
  then show ?thesis using assms
    by (cases R) (auto simp: incrementCounter_step_def Let_def worker_ok_def loop_test split: if_splits)
next
  case Lock
  then show ?thesis using assms
    by (cases R) (auto simp: incrementCounter_step_def Let_def worker_ok_def split: option.splits)
next
  case Load
  then show ?thesis using assms
    by (cases R) (auto simp: incrementCounter_step_def Let_def worker_ok_def)
next
  case Store
  then show ?thesis using assms
    by (cases R) (auto simp: incrementCounter_step_def Let_def worker_ok_def)
next
  case Unlock
  then show ?thesis using assms
    by (cases R) (auto simp: incrementCounter_step_def Let_def worker_ok_def)
next
  case FetchAdd
  then show ?thesis using assms
    by (cases R) (auto simp: incrementCounter_step_def Let_def worker_ok_def)
next
  case Incr
  then show ?thesis using assms
    by (cases R) (auto simp: incrementCounter_step_def Let_def worker_ok_def loop_incr)
next
  case Done
  then show ?thesis using assms
    by (auto simp: incrementCounter_step_def Let_def)
qed

lemma new_worker_ok: "worker_ok R n new_worker"
  by (cases R) (simp_all add: worker_ok_def new_worker_def)

lemma main_step_workers:
  "main_step t s = Some s' \<Longrightarrow> workers s' = workers s \<or> workers s' = workers s @ [new_worker]"
  by (auto simp: main_step_def split: main_pc.splits if_splits)

lemma reachable_workers_ok:
  "reachable R t n s \<Longrightarrow> \<forall>w \<in> set (workers s). worker_ok R n w"
proof (induction rule: reachable.induct)
  case start
  show ?case by (simp add: init_def)
next
  case (move s a s')
  show ?case
  proof (cases a)
    case Main
    then have "main_step t s = Some s'" using move.hyps(2) by simp
    then have "workers s' = workers s \<or> workers s' = workers s @ [new_worker]"
      by (rule main_step_workers)
    then show ?thesis using move.IH new_worker_ok by auto
  next
    case (Worker k)
    then have k: "k < length (workers s)" and st: "incrementCounter_step R n k s = Some s'"
      using move.hyps(2) by (auto split: if_splits)
    have "worker_ok R n (workers s ! k)" using move.IH k by simp
    with st k have w': "workers s' = (workers s)[k := workers s' ! k]" "worker_ok R n (workers s' ! k)"
      using worker_step_ok by blast+
    have "set ((workers s)[k := workers s' ! k]) \<subseteq> insert (workers s' ! k) (set (workers s))"
      by (rule set_update_subset_insert)
    then have "set (workers s') \<subseteq> insert (workers s' ! k) (set (workers s))"
      using w'(1) by simp
    then show ?thesis using move.IH w'(2) by auto
  qed
qed

section \<open>The steps of a thread, case by case\<close>

lemma sum_list_map_update:
  "k < length ws \<Longrightarrow>
   sum_list (map f (ws[k := w])) + f (ws ! k) = sum_list (map f ws) + (f w :: nat)"
proof (induction ws arbitrary: k)
  case Nil
  then show ?case by simp
next
  case (Cons a ws)
  show ?case
  proof (cases k)
    case 0
    then show ?thesis by simp
  next
    case (Suc j)
    then have "j < length ws" using Cons.prems by simp
    then have "sum_list (map f (ws[j := w])) + f (ws ! j) = sum_list (map f ws) + f w"
      by (rule Cons.IH)
    then show ?thesis using Suc by simp
  qed
qed

lemma worker_step_cases [consumes 2, case_names Test_in Test_out Lock Load Store Unlock FetchAdd Incr]:
  assumes st: "incrementCounter_step R n k s = Some s'"
    and ok: "worker_ok R n (workers s ! k)"
  obtains
    (Test_in) "wpc (workers s ! k) = Test" "unat (i (workers s ! k)) < iters n"
      "s' = s\<lparr>workers := (workers s)[k := (workers s ! k)\<lparr>wpc := body_entry R\<rparr>]\<rparr>"
  | (Test_out) "wpc (workers s ! k) = Test" "unat (i (workers s ! k)) = iters n"
      "s' = s\<lparr>workers := (workers s)[k := (workers s ! k)\<lparr>wpc := Done\<rparr>]\<rparr>"
  | (Lock) "R = MUTEX" "wpc (workers s ! k) = Lock" "mtx s = None"
      "s' = s\<lparr>mtx := Some k, workers := (workers s)[k := (workers s ! k)\<lparr>wpc := Load\<rparr>]\<rparr>"
  | (Load) "R \<noteq> ATOMIC" "wpc (workers s ! k) = Load"
      "s' = s\<lparr>workers := (workers s)[k := (workers s ! k)\<lparr>tmp := counter s, wpc := Store\<rparr>]\<rparr>"
  | (Store) "R \<noteq> ATOMIC" "wpc (workers s ! k) = Store"
      "s' = s\<lparr>counter := tmp (workers s ! k) + 1,
               workers := (workers s)[k := (workers s ! k)\<lparr>wpc := (if R = MUTEX then Unlock else Incr)\<rparr>]\<rparr>"
  | (Unlock) "R = MUTEX" "wpc (workers s ! k) = Unlock"
      "s' = s\<lparr>mtx := None, workers := (workers s)[k := (workers s ! k)\<lparr>wpc := Incr\<rparr>]\<rparr>"
  | (FetchAdd) "R = ATOMIC" "wpc (workers s ! k) = FetchAdd"
      "s' = s\<lparr>counter := counter s + 1, workers := (workers s)[k := (workers s ! k)\<lparr>wpc := Incr\<rparr>]\<rparr>"
  | (Incr) "wpc (workers s ! k) = Incr" "unat (i (workers s ! k)) < iters n"
      "unat (i (workers s ! k) + 1) = Suc (unat (i (workers s ! k)))"
      "s' = s\<lparr>workers := (workers s)[k := (workers s ! k)\<lparr>i := i (workers s ! k) + 1, wpc := Test\<rparr>]\<rparr>"
proof (cases "wpc (workers s ! k)")
  case Test
  show ?thesis
  proof (cases "unat (i (workers s ! k)) < iters n")
    case True
    then show ?thesis using Test st ok
      by (intro that(1)) (auto simp: incrementCounter_step_def Let_def worker_ok_def loop_test)
  next
    case False
    then show ?thesis using Test st ok
      by (intro that(2)) (auto simp: incrementCounter_step_def Let_def worker_ok_def loop_test)
  qed
next
  case Lock
  then show ?thesis using st ok
    by (intro that(3); cases R) (auto simp: incrementCounter_step_def Let_def worker_ok_def split: option.splits)
next
  case Load
  then show ?thesis using st ok
    by (intro that(4); cases R) (auto simp: incrementCounter_step_def Let_def worker_ok_def)
next
  case Store
  then show ?thesis using st ok
    by (intro that(5); cases R) (auto simp: incrementCounter_step_def Let_def worker_ok_def)
next
  case Unlock
  then show ?thesis using st ok
    by (intro that(6); cases R) (auto simp: incrementCounter_step_def Let_def worker_ok_def)
next
  case FetchAdd
  then show ?thesis using st ok
    by (intro that(7); cases R) (auto simp: incrementCounter_step_def Let_def worker_ok_def)
next
  case Incr
  then show ?thesis using st ok
    by (intro that(8)) (auto simp: incrementCounter_step_def Let_def worker_ok_def loop_incr)
next
  case Done
  then show ?thesis using st by (simp add: incrementCounter_step_def Let_def)
qed

section \<open>The main thread: creation, joins, output\<close>

lemma main_step_cases [consumes 1, case_names Spawn Spawned Join Joined Print Return]:
  assumes "main_step t s = Some s'"
  obtains
    (Spawn) "mpc s = MSpawn" "length (workers s) < t" "s' = s\<lparr>workers := workers s @ [new_worker]\<rparr>"
  | (Spawned) "mpc s = MSpawn" "\<not> length (workers s) < t" "s' = s\<lparr>mpc := MJoin 0\<rparr>"
  | (Join) k where "mpc s = MJoin k" "k < t" "k < length (workers s)" "wpc (workers s ! k) = Done"
      "s' = s\<lparr>mpc := MJoin (Suc k)\<rparr>"
  | (Joined) k where "mpc s = MJoin k" "\<not> k < t" "s' = s\<lparr>mpc := MPrint\<rparr>"
  | (Print) "mpc s = MPrint" "s' = s\<lparr>out := out s @ print_counter (counter s), mpc := MReturn\<rparr>"
  | (Return) "mpc s = MReturn" "s' = s\<lparr>exit_code := Some 0, mpc := MExit\<rparr>"
  using assms by (cases "mpc s") (auto simp: main_step_def split: if_splits)

lemma worker_step_frame:
  assumes "incrementCounter_step R n k s = Some s'"
  shows "mpc s' = mpc s \<and> out s' = out s \<and> exit_code s' = exit_code s \<and>
         length (workers s') = length (workers s) \<and> wpc (workers s ! k) \<noteq> Done \<and>
         (\<forall>j. j \<noteq> k \<longrightarrow> workers s' ! j = workers s ! j)"
  using assms
  by (cases "wpc (workers s ! k)")
     (auto simp: incrementCounter_step_def Let_def split: option.splits)

lemma all_done_no_step:
  "all_done s \<Longrightarrow> k < length (workers s) \<Longrightarrow> incrementCounter_step R n k s = None"
  by (simp add: all_done_def all_set_conv_all_nth incrementCounter_step_def Let_def)

lemma all_done_nth:
  "all_done s \<longleftrightarrow> (\<forall>j<length (workers s). wpc (workers s ! j) = Done)"
  by (simp add: all_done_def all_set_conv_all_nth)

lemma reachable_main_inv: "reachable R t n s \<Longrightarrow> main_inv t s"
proof (induction rule: reachable.induct)
  case start
  show ?case by (simp add: main_inv_def init_def)
next
  case (move s a s')
  show ?case
  proof (cases a)
    case Main
    then have "main_step t s = Some s'" using move.hyps(2) by simp
    then show ?thesis using move.IH
    proof (cases rule: main_step_cases)
      case (Join k)
      then show ?thesis using move.IH by (auto simp: main_inv_def less_Suc_eq)
    next
      case (Joined k)
      then show ?thesis using move.IH by (auto simp: main_inv_def all_done_nth)
    qed (auto simp: main_inv_def all_done_def)
  next
    case (Worker k)
    then have k: "k < length (workers s)" and st: "incrementCounter_step R n k s = Some s'"
      using move.hyps(2) by (auto split: if_splits)
    have nd: "\<not> all_done s" using all_done_no_step [OF _ k] st by auto
    have fr: "mpc s' = mpc s" "out s' = out s" "exit_code s' = exit_code s"
      "length (workers s') = length (workers s)" "wpc (workers s ! k) \<noteq> Done"
      "\<And>j. j \<noteq> k \<Longrightarrow> workers s' ! j = workers s ! j"
      using worker_step_frame [OF st] by auto
    show ?thesis
    proof (cases "mpc s")
      case MSpawn
      then show ?thesis using move.IH fr by (simp add: main_inv_def)
    next
      case (MJoin m)
      then have d: "\<forall>j<m. wpc (workers s ! j) = Done" using move.IH by (simp add: main_inv_def)
      have "\<forall>j<m. wpc (workers s' ! j) = Done"
      proof (intro allI impI)
        fix j assume "j < m"
        then have "wpc (workers s ! j) = Done" using d by simp
        then have "j \<noteq> k" using fr(5) by auto
        then show "wpc (workers s' ! j) = Done" using fr(6) \<open>wpc (workers s ! j) = Done\<close> by simp
      qed
      then show ?thesis using MJoin move.IH fr by (simp add: main_inv_def)
    next
      case MPrint
      then show ?thesis using move.IH nd by (simp add: main_inv_def)
    next
      case MReturn
      then show ?thesis using move.IH nd by (simp add: main_inv_def)
    next
      case MExit
      then show ?thesis using move.IH nd by (simp add: main_inv_def)
    qed
  qed
qed

section \<open>Counting the increments\<close>

lemma incs_new_worker: "incs new_worker = 0"
  by (simp add: incs_def credit_def new_worker_def)

lemma main_step_shared:
  assumes "main_step t s = Some s'"
  shows "increments s' = increments s \<and> counter s' = counter s \<and> mtx s' = mtx s"
  using assms by (cases rule: main_step_cases) (simp_all add: increments_def incs_new_worker)

lemma worker_step_total:
  assumes st: "incrementCounter_step R n k s = Some s'"
    and ok: "worker_ok R n (workers s ! k)"
    and k: "k < length (workers s)"
  shows "increments s' =
         increments s + (if wpc (workers s ! k) = Store \<or> wpc (workers s ! k) = FetchAdd then 1 else 0)"
proof -
  have upd: "\<And>w. sum_list (map incs ((workers s)[k := w])) + incs (workers s ! k) =
                 increments s + incs w"
    unfolding increments_def using k by (rule sum_list_map_update)
  from st ok show ?thesis
  proof (cases rule: worker_step_cases)
    case Test_in
    then show ?thesis
      using upd [of "(workers s ! k)\<lparr>wpc := body_entry R\<rparr>"]
      by (cases R) (simp_all add: increments_def incs_def credit_def)
  next
    case Test_out
    then show ?thesis
      using upd [of "(workers s ! k)\<lparr>wpc := Done\<rparr>"]
      by (simp add: increments_def incs_def credit_def)
  next
    case Lock
    then show ?thesis
      using upd [of "(workers s ! k)\<lparr>wpc := Load\<rparr>"]
      by (simp add: increments_def incs_def credit_def)
  next
    case Load
    then show ?thesis
      using upd [of "(workers s ! k)\<lparr>tmp := counter s, wpc := Store\<rparr>"]
      by (simp add: increments_def incs_def credit_def)
  next
    case Store
    then show ?thesis
      using upd [of "(workers s ! k)\<lparr>wpc := (if R = MUTEX then Unlock else Incr)\<rparr>"]
      by (simp add: increments_def incs_def credit_def)
  next
    case Unlock
    then show ?thesis
      using upd [of "(workers s ! k)\<lparr>wpc := Incr\<rparr>"]
      by (simp add: increments_def incs_def credit_def)
  next
    case FetchAdd
    then show ?thesis
      using upd [of "(workers s ! k)\<lparr>wpc := Incr\<rparr>"]
      by (simp add: increments_def incs_def credit_def)
  next
    case Incr
    then show ?thesis
      using upd [of "(workers s ! k)\<lparr>i := i (workers s ! k) + 1, wpc := Test\<rparr>"]
      by (simp add: increments_def incs_def credit_def)
  qed
qed

lemma worker_step_counter:
  assumes st: "incrementCounter_step R n k s = Some s'"
  shows "counter s' =
         (if wpc (workers s ! k) = Store then tmp (workers s ! k) + 1
          else if wpc (workers s ! k) = FetchAdd then counter s + 1
          else counter s)"
  using assms
  by (cases "wpc (workers s ! k)")
     (auto simp: incrementCounter_step_def Let_def split: option.splits)

lemma reachable_atomic:
  "reachable ATOMIC t n s \<Longrightarrow> counter s = of_nat (increments s)"
proof (induction rule: reachable.induct)
  case start
  show ?case by (simp add: init_def increments_def)
next
  case (move s a s')
  show ?case
  proof (cases a)
    case Main
    then have "main_step t s = Some s'" using move.hyps(2) by simp
    then show ?thesis using main_step_shared move.IH by metis
  next
    case (Worker k)
    then have k: "k < length (workers s)" and st: "incrementCounter_step ATOMIC n k s = Some s'"
      using move.hyps(2) by (auto split: if_splits)
    have ok: "worker_ok ATOMIC n (workers s ! k)"
      using reachable_workers_ok [OF move.hyps(1)] k by simp
    then have "wpc (workers s ! k) \<noteq> Store" by (auto simp: worker_ok_def)
    then show ?thesis
      using worker_step_total [OF st ok k] worker_step_counter [OF st] move.IH by simp
  qed
qed

section \<open>Mutual exclusion in mutex.cpp\<close>

lemma in_cs_new_worker: "\<not> in_cs new_worker"
  by (simp add: in_cs_def new_worker_def)

lemma main_step_mutex_inv:
  assumes "main_step t s = Some s'" and "mutex_inv s"
  shows "mutex_inv s'"
  using assms
proof (cases rule: main_step_cases)
  case Spawn
  then show ?thesis using assms(2)
    by (auto simp: mutex_inv_def nth_append in_cs_def new_worker_def less_Suc_eq)
qed (simp_all add: mutex_inv_def)

lemma mutex_inv_excl:
  assumes "mutex_inv s" and "j < length (workers s)" and "k < length (workers s)"
    and "in_cs (workers s ! j)" and "in_cs (workers s ! k)"
  shows "j = k"
proof -
  have "mtx s = Some j" using assms(1,2,4) by (simp add: mutex_inv_def)
  moreover have "mtx s = Some k" using assms(1,3,5) by (simp add: mutex_inv_def)
  ultimately show ?thesis by simp
qed

lemma mutex_inv_update:
  assumes inv: "mutex_inv s" and k: "k < length (workers s)"
    and ws: "workers s' = (workers s)[k := w']"
    and own: "in_cs w' \<longleftrightarrow> mtx s' = Some k"
    and oth: "mtx s' = mtx s \<or> (mtx s' = None \<and> mtx s = Some k) \<or> (mtx s = None \<and> mtx s' = Some k)"
    and tmpk: "wpc w' = Store \<longrightarrow> tmp w' = counter s'"
    and cnt: "counter s' = counter s \<or> mtx s = Some k"
  shows "mutex_inv s'"
proof -
  have len: "length (workers s') = length (workers s)" using ws by simp
  have a: "in_cs (workers s' ! j) \<longleftrightarrow> mtx s' = Some j" if j: "j < length (workers s')" for j
  proof (cases "j = k")
    case True
    then show ?thesis using own ws k by simp
  next
    case False
    have "workers s' ! j = workers s ! j" using False ws by simp
    moreover have "in_cs (workers s ! j) \<longleftrightarrow> mtx s = Some j"
      using inv j len by (simp add: mutex_inv_def)
    ultimately show ?thesis using oth False by auto
  qed
  have b: "j < length (workers s')" if "mtx s' = Some j" for j
  proof -
    have "mtx s = Some j \<longrightarrow> j < length (workers s)" using inv by (simp add: mutex_inv_def)
    then show ?thesis using that oth k len by auto
  qed
  have c: "tmp (workers s' ! j) = counter s'"
    if j: "j < length (workers s')" and st: "wpc (workers s' ! j) = Store" for j
  proof (cases "j = k")
    case True
    then show ?thesis using tmpk st ws k by simp
  next
    case False
    have e: "workers s' ! j = workers s ! j" using False ws by simp
    then have "in_cs (workers s ! j)" using st by (simp add: in_cs_def)
    then have "mtx s = Some j" using inv j len by (simp add: mutex_inv_def)
    then have "counter s' = counter s" using cnt False by simp
    moreover have "tmp (workers s ! j) = counter s"
      using inv j len st e by (simp add: mutex_inv_def)
    ultimately show ?thesis using e by simp
  qed
  show ?thesis unfolding mutex_inv_def using a b c by blast
qed

lemma worker_step_mutex_inv:
  assumes st: "incrementCounter_step MUTEX n k s = Some s'"
    and ok: "worker_ok MUTEX n (workers s ! k)"
    and k: "k < length (workers s)"
    and inv: "mutex_inv s"
  shows "mutex_inv s'"
proof -
  have own: "in_cs (workers s ! k) \<longleftrightarrow> mtx s = Some k"
    using inv k by (simp add: mutex_inv_def)
  have tk: "wpc (workers s ! k) = Store \<longrightarrow> tmp (workers s ! k) = counter s"
    using inv k by (simp add: mutex_inv_def)
  from st ok show ?thesis
  proof (cases rule: worker_step_cases)
    case Test_in
    show ?thesis
      by (rule mutex_inv_update [OF inv k, where w' = "(workers s ! k)\<lparr>wpc := Lock\<rparr>"])
         (use Test_in own in \<open>simp_all add: in_cs_def\<close>)
  next
    case Test_out
    show ?thesis
      by (rule mutex_inv_update [OF inv k, where w' = "(workers s ! k)\<lparr>wpc := Done\<rparr>"])
         (use Test_out own in \<open>simp_all add: in_cs_def\<close>)
  next
    case Lock
    show ?thesis
      by (rule mutex_inv_update [OF inv k, where w' = "(workers s ! k)\<lparr>wpc := Load\<rparr>"])
         (use Lock own in \<open>simp_all add: in_cs_def\<close>)
  next
    case Load
    show ?thesis
      by (rule mutex_inv_update [OF inv k,
            where w' = "(workers s ! k)\<lparr>tmp := counter s, wpc := Store\<rparr>"])
         (use Load own in \<open>simp_all add: in_cs_def\<close>)
  next
    case Store
    show ?thesis
      by (rule mutex_inv_update [OF inv k, where w' = "(workers s ! k)\<lparr>wpc := Unlock\<rparr>"])
         (use Store own in \<open>simp_all add: in_cs_def\<close>)
  next
    case Unlock
    show ?thesis
      by (rule mutex_inv_update [OF inv k, where w' = "(workers s ! k)\<lparr>wpc := Incr\<rparr>"])
         (use Unlock own in \<open>simp_all add: in_cs_def\<close>)
  next
    case FetchAdd
    then show ?thesis by simp
  next
    case Incr
    show ?thesis
      by (rule mutex_inv_update [OF inv k,
            where w' = "(workers s ! k)\<lparr>i := i (workers s ! k) + 1, wpc := Test\<rparr>"])
         (use Incr own in \<open>simp_all add: in_cs_def\<close>)
  qed
qed

lemma reachable_mutex_inv: "reachable MUTEX t n s \<Longrightarrow> mutex_inv s"
proof (induction rule: reachable.induct)
  case start
  show ?case by (simp add: init_def mutex_inv_def)
next
  case (move s a s')
  show ?case
  proof (cases a)
    case Main
    then have "main_step t s = Some s'" using move.hyps(2) by simp
    then show ?thesis using move.IH by (rule main_step_mutex_inv)
  next
    case (Worker k)
    then have k: "k < length (workers s)" and st: "incrementCounter_step MUTEX n k s = Some s'"
      using move.hyps(2) by (auto split: if_splits)
    have ok: "worker_ok MUTEX n (workers s ! k)"
      using reachable_workers_ok [OF move.hyps(1)] k by simp
    show ?thesis using st ok k move.IH by (rule worker_step_mutex_inv)
  qed
qed

lemma reachable_mutex:
  "reachable MUTEX t n s \<Longrightarrow> counter s = of_nat (increments s)"
proof (induction rule: reachable.induct)
  case start
  show ?case by (simp add: init_def increments_def)
next
  case (move s a s')
  show ?case
  proof (cases a)
    case Main
    then have "main_step t s = Some s'" using move.hyps(2) by simp
    then show ?thesis using main_step_shared move.IH by metis
  next
    case (Worker k)
    then have k: "k < length (workers s)" and st: "incrementCounter_step MUTEX n k s = Some s'"
      using move.hyps(2) by (auto split: if_splits)
    have ok: "worker_ok MUTEX n (workers s ! k)"
      using reachable_workers_ok [OF move.hyps(1)] k by simp
    then have nf: "wpc (workers s ! k) \<noteq> FetchAdd" by (auto simp: worker_ok_def)
    have "wpc (workers s ! k) = Store \<longrightarrow> tmp (workers s ! k) = counter s"
      using reachable_mutex_inv [OF move.hyps(1)] k by (simp add: mutex_inv_def)
    then show ?thesis
      using nf worker_step_total [OF st ok k] worker_step_counter [OF st] move.IH by auto
  qed
qed

section \<open>Bounds on the number of increments\<close>

lemma sum_list_const:
  "(\<forall>x \<in> set xs. f x = (c :: nat)) \<Longrightarrow> sum_list (map f xs) = length xs * c"
  by (induction xs) simp_all

lemma sum_list_bound:
  "(\<forall>x \<in> set xs. f x \<le> (c :: nat)) \<Longrightarrow> sum_list (map f xs) \<le> length xs * c"
  by (induction xs) (simp_all add: add_mono)

lemma incs_le: "worker_ok R n w \<Longrightarrow> incs w \<le> iters n"
  by (auto simp: worker_ok_def incs_def credit_def)

lemma incs_done: "worker_ok R n w \<Longrightarrow> wpc w = Done \<Longrightarrow> incs w = iters n"
  by (simp add: worker_ok_def incs_def credit_def)

lemma reachable_total_le:
  assumes "reachable R t n s"
  shows "increments s \<le> t * iters n"
proof -
  have "\<forall>w \<in> set (workers s). incs w \<le> iters n"
    using reachable_workers_ok [OF assms] incs_le by blast
  then have "increments s \<le> length (workers s) * iters n"
    unfolding increments_def by (rule sum_list_bound)
  moreover have "length (workers s) \<le> t"
    using reachable_main_inv [OF assms] by (simp add: main_inv_def)
  ultimately show ?thesis by (meson le_trans mult_le_mono1)
qed

lemma reachable_total_done:
  assumes "reachable R t n s" and "all_done s" and "length (workers s) = t"
  shows "increments s = t * iters n"
proof -
  have "\<forall>w \<in> set (workers s). incs w = iters n"
    using reachable_workers_ok [OF assms(1)] assms(2) incs_done by (auto simp: all_done_def)
  then have "increments s = length (workers s) * iters n"
    unfolding increments_def by (rule sum_list_const)
  then show ?thesis using assms(3) by simp
qed

lemma exited_all_done:
  assumes "reachable R t n s" and "mpc s = MExit"
  shows "all_done s \<and> length (workers s) = t \<and> out s = print_counter (counter s) \<and>
         exit_code s = Some 0"
  using reachable_main_inv [OF assms(1)] assms(2) by (simp add: main_inv_def)

lemma unat_succ_le: "unat (x + 1 :: int32) \<le> Suc (unat x)"
proof -
  have "unat (x + 1) = (unat x + unat (1 :: int32)) mod 2 ^ LENGTH(32)"
    by (rule unat_word_ariths(1))
  also have "\<dots> \<le> unat x + unat (1 :: int32)" by (rule mod_less_eq_dividend)
  finally show ?thesis by simp
qed

lemma none_inv_update:
  assumes inv: "none_inv s" and k: "k < length (workers s)"
    and ws: "workers s' = (workers s)[k := w']"
    and mono: "increments s \<le> increments s'"
    and cnt: "unat (counter s') \<le> increments s'"
    and tmpk: "wpc w' = Store \<longrightarrow> unat (tmp w') \<le> increments s'"
  shows "none_inv s'"
proof -
  have "unat (tmp (workers s' ! j)) \<le> increments s'"
    if j: "j < length (workers s')" and st: "wpc (workers s' ! j) = Store" for j
  proof (cases "j = k")
    case True
    then show ?thesis using tmpk st ws k by simp
  next
    case False
    then have e: "workers s' ! j = workers s ! j" using ws by simp
    have "j < length (workers s)" using j ws by simp
    then have "unat (tmp (workers s ! j)) \<le> increments s"
      using inv st e by (simp add: none_inv_def)
    then show ?thesis using e mono by simp
  qed
  then show ?thesis unfolding none_inv_def using cnt by blast
qed

lemma reachable_none_inv: "reachable NONE t n s \<Longrightarrow> none_inv s"
proof (induction rule: reachable.induct)
  case start
  show ?case by (simp add: init_def none_inv_def increments_def)
next
  case (move s a s')
  show ?case
  proof (cases a)
    case Main
    then have m: "main_step t s = Some s'" using move.hyps(2) by simp
    have sh: "increments s' = increments s" "counter s' = counter s" using main_step_shared [OF m] by simp_all
    from m show ?thesis
    proof (cases rule: main_step_cases)
      case Spawn
      then show ?thesis using move.IH sh
        by (auto simp: none_inv_def nth_append new_worker_def less_Suc_eq)
    qed (use move.IH sh in \<open>simp_all add: none_inv_def\<close>)
  next
    case (Worker k)
    then have k: "k < length (workers s)" and st: "incrementCounter_step NONE n k s = Some s'"
      using move.hyps(2) by (auto split: if_splits)
    have ok: "worker_ok NONE n (workers s ! k)"
      using reachable_workers_ok [OF move.hyps(1)] k by simp
    have tot: "increments s' =
         increments s + (if wpc (workers s ! k) = Store \<or> wpc (workers s ! k) = FetchAdd then 1 else 0)"
      by (rule worker_step_total [OF st ok k])
    have cnt: "counter s' =
         (if wpc (workers s ! k) = Store then tmp (workers s ! k) + 1
          else if wpc (workers s ! k) = FetchAdd then counter s + 1
          else counter s)"
      by (rule worker_step_counter [OF st])
    have c0: "unat (counter s) \<le> increments s" using move.IH by (simp add: none_inv_def)
    have t0: "wpc (workers s ! k) = Store \<Longrightarrow> unat (tmp (workers s ! k)) \<le> increments s"
      using move.IH k by (simp add: none_inv_def)
    have mono: "increments s \<le> increments s'" using tot by simp
    have nf: "wpc (workers s ! k) \<noteq> FetchAdd" using ok by (auto simp: worker_ok_def)
    have c1: "unat (counter s') \<le> increments s'"
    proof (cases "wpc (workers s ! k) = Store")
      case True
      then have "unat (counter s') \<le> Suc (unat (tmp (workers s ! k)))"
        using cnt unat_succ_le [of "tmp (workers s ! k)"] by simp
      then show ?thesis using t0 [OF True] tot True by simp
    next
      case False
      then show ?thesis using cnt nf c0 mono by simp
    qed
    from st ok show ?thesis
    proof (cases rule: worker_step_cases)
      case Test_in
      show ?thesis
        by (rule none_inv_update [OF move.IH k _ mono c1, where w' = "(workers s ! k)\<lparr>wpc := Load\<rparr>"])
           (use Test_in in simp_all)
    next
      case Test_out
      show ?thesis
        by (rule none_inv_update [OF move.IH k _ mono c1, where w' = "(workers s ! k)\<lparr>wpc := Done\<rparr>"])
           (use Test_out in simp_all)
    next
      case Lock
      then show ?thesis by simp
    next
      case Load
      show ?thesis
        by (rule none_inv_update [OF move.IH k _ mono c1,
              where w' = "(workers s ! k)\<lparr>tmp := counter s, wpc := Store\<rparr>"])
           (use Load c0 mono in simp_all)
    next
      case Store
      show ?thesis
        by (rule none_inv_update [OF move.IH k _ mono c1, where w' = "(workers s ! k)\<lparr>wpc := Incr\<rparr>"])
           (use Store in simp_all)
    next
      case Unlock
      then show ?thesis by simp
    next
      case FetchAdd
      then show ?thesis by simp
    next
      case Incr
      show ?thesis
        by (rule none_inv_update [OF move.IH k _ mono c1,
              where w' = "(workers s ! k)\<lparr>i := i (workers s ! k) + 1, wpc := Test\<rparr>"])
           (use Incr in simp_all)
    qed
  qed
qed

section \<open>Every run ends: a decreasing measure, and no deadlock\<close>

lemma main_step_decreases:
  assumes "main_step t s = Some s'"
  shows "steps_left t n s' < steps_left t n s"
  using assms
proof (cases rule: main_step_cases)
  case Spawn
  have "t - length (workers s) = Suc (t - Suc (length (workers s)))" using Spawn(2) by simp
  then show ?thesis using Spawn
    by (simp add: steps_left_def wmeasure_def new_worker_def)
qed (simp_all add: steps_left_def)

lemma worker_step_decreases:
  assumes st: "incrementCounter_step R n k s = Some s'"
    and ok: "worker_ok R n (workers s ! k)"
    and k: "k < length (workers s)"
  shows "steps_left t n s' < steps_left t n s"
proof -
  have upd: "\<And>w. sum_list (map (wmeasure n) ((workers s)[k := w])) + wmeasure n (workers s ! k) =
                 sum_list (map (wmeasure n) (workers s)) + wmeasure n w"
    using k by (rule sum_list_map_update)
  have fr: "mpc s' = mpc s" "length (workers s') = length (workers s)"
    using worker_step_frame [OF st] by simp_all
  have "sum_list (map (wmeasure n) (workers s')) < sum_list (map (wmeasure n) (workers s))"
    using st ok
  proof (cases rule: worker_step_cases)
    case Test_in
    then show ?thesis using upd [of "(workers s ! k)\<lparr>wpc := body_entry R\<rparr>"]
      by (cases R) (simp_all add: wmeasure_def)
  next
    case Test_out
    then show ?thesis using upd [of "(workers s ! k)\<lparr>wpc := Done\<rparr>"]
      by (simp add: wmeasure_def)
  next
    case Lock
    then show ?thesis using upd [of "(workers s ! k)\<lparr>wpc := Load\<rparr>"]
      by (simp add: wmeasure_def)
  next
    case Load
    then show ?thesis using upd [of "(workers s ! k)\<lparr>tmp := counter s, wpc := Store\<rparr>"]
      by (simp add: wmeasure_def)
  next
    case Store
    then show ?thesis using upd [of "(workers s ! k)\<lparr>wpc := (if R = MUTEX then Unlock else Incr)\<rparr>"]
      by (cases "R = MUTEX") (simp_all add: wmeasure_def)
  next
    case Unlock
    then show ?thesis using upd [of "(workers s ! k)\<lparr>wpc := Incr\<rparr>"]
      by (simp add: wmeasure_def)
  next
    case FetchAdd
    then show ?thesis using upd [of "(workers s ! k)\<lparr>wpc := Incr\<rparr>"]
      by (simp add: wmeasure_def)
  next
    case Incr
    have "iters n - unat (i (workers s ! k)) = Suc (iters n - Suc (unat (i (workers s ! k))))"
      using Incr(2) by simp
    then show ?thesis
      using Incr upd [of "(workers s ! k)\<lparr>i := i (workers s ! k) + 1, wpc := Test\<rparr>"]
      by (simp add: wmeasure_def)
  qed
  then show ?thesis using fr by (simp add: steps_left_def)
qed

lemma step_decreases:
  assumes "reachable R t n s" and "step R t n a s = Some s'"
  shows "steps_left t n s' < steps_left t n s"
proof (cases a)
  case Main
  then show ?thesis using assms(2) main_step_decreases by simp
next
  case (Worker k)
  then have k: "k < length (workers s)" and st: "incrementCounter_step R n k s = Some s'"
    using assms(2) by (auto split: if_splits)
  have ok: "worker_ok R n (workers s ! k)"
    using reachable_workers_ok [OF assms(1)] k by simp
  show ?thesis using st ok k by (rule worker_step_decreases)
qed

lemma worker_enabled:
  "wpc (workers s ! k) \<noteq> Done \<Longrightarrow> \<not> (wpc (workers s ! k) = Lock \<and> mtx s \<noteq> None) \<Longrightarrow>
   \<exists>s'. incrementCounter_step R n k s = Some s'"
  by (cases "wpc (workers s ! k)")
     (auto simp: incrementCounter_step_def Let_def split: option.splits)

lemma main_enabled:
  "mpc s = MSpawn \<or> mpc s = MPrint \<or> mpc s = MReturn \<or>
   (\<exists>k. mpc s = MJoin k \<and> (k < t \<longrightarrow> k < length (workers s) \<and> wpc (workers s ! k) = Done)) \<Longrightarrow>
   \<exists>s'. main_step t s = Some s'"
  by (cases "mpc s") (auto simp: main_step_def)

lemma progress:
  assumes r: "reachable R t n s" and ne: "mpc s \<noteq> MExit"
  shows "\<exists>a s'. step R t n a s = Some s'"
proof (cases "\<exists>s'. main_step t s = Some s'")
  case True
  then obtain s' where "step R t n Main s = Some s'" by auto
  then show ?thesis by blast
next
  case False
  then obtain k where mk: "mpc s = MJoin k" and kt: "k < t"
    and nd: "\<not> (k < length (workers s) \<and> wpc (workers s ! k) = Done)"
    using main_enabled [of s t] ne by (cases "mpc s") auto
  have "length (workers s) = t" using reachable_main_inv [OF r] mk by (simp add: main_inv_def)
  then have kl: "k < length (workers s)" and nd': "wpc (workers s ! k) \<noteq> Done"
    using kt nd by auto
  show ?thesis
  proof (cases "wpc (workers s ! k) = Lock \<and> mtx s \<noteq> None")
    case False
    then obtain s' where "incrementCounter_step R n k s = Some s'"
      using worker_enabled [OF nd'] by blast
    then have "step R t n (Worker k) s = Some s'" using kl by simp
    then show ?thesis by blast
  next
    case True
    then obtain j where j: "mtx s = Some j" by auto
    have "worker_ok R n (workers s ! k)" using reachable_workers_ok [OF r] kl by simp
    then have "R = MUTEX" using True by (cases R) (auto simp: worker_ok_def)
    then have inv: "mutex_inv s" using reachable_mutex_inv r by simp
    then have jl: "j < length (workers s)" using j by (simp add: mutex_inv_def)
    then have "in_cs (workers s ! j)" using inv j by (simp add: mutex_inv_def)
    then have "wpc (workers s ! j) \<noteq> Done" "\<not> (wpc (workers s ! j) = Lock \<and> mtx s \<noteq> None)"
      by (auto simp: in_cs_def)
    then obtain s' where "incrementCounter_step R n j s = Some s'"
      using worker_enabled by blast
    then have "step R t n (Worker j) s = Some s'" using jl by simp
    then show ?thesis by blast
  qed
qed

section \<open>Runs and reachable states\<close>

lemma run_reachable:
  "reachable R t n s \<Longrightarrow> run R t n sched s = Some s' \<Longrightarrow> reachable R t n s'"
proof (induction sched arbitrary: s)
  case Nil
  then show ?case by simp
next
  case (Cons a sched)
  from Cons.prems(2) obtain s1 where s1: "step R t n a s = Some s1" "run R t n sched s1 = Some s'"
    by (auto split: option.splits)
  have "reachable R t n s1" using Cons.prems(1) s1(1) by (rule reachable.move)
  then show ?case using s1(2) by (rule Cons.IH)
qed

lemma reachable_run:
  "reachable R t n s \<Longrightarrow> \<exists>sched. run R t n sched init = Some s"
proof (induction rule: reachable.induct)
  case start
  have "run R t n [] init = Some init" by simp
  then show ?case by blast
next
  case (move s a s')
  then obtain sched where sc: "run R t n sched init = Some s" by blast
  have "run R t n (xs @ [a]) s0 = Some s'" if "run R t n xs s0 = Some s" for xs s0
    using that move.hyps(2) by (induction xs arbitrary: s0) (auto split: option.splits)
  then have "run R t n (sched @ [a]) init = Some s'" using sc by blast
  then show ?case by blast
qed

lemma run_bounded:
  "reachable R t n s \<Longrightarrow> run R t n sched s = Some s' \<Longrightarrow>
   length sched + steps_left t n s' \<le> steps_left t n s"
proof (induction sched arbitrary: s)
  case Nil
  then show ?case by simp
next
  case (Cons a sched)
  from Cons.prems(2) obtain s1 where s1: "step R t n a s = Some s1" "run R t n sched s1 = Some s'"
    by (auto split: option.splits)
  have r1: "reachable R t n s1" using Cons.prems(1) s1(1) by (rule reachable.move)
  have "steps_left t n s1 < steps_left t n s" using Cons.prems(1) s1(1) by (rule step_decreases)
  moreover have "length sched + steps_left t n s' \<le> steps_left t n s1"
    using r1 s1(2) by (rule Cons.IH)
  ultimately show ?case by simp
qed

lemma exact_final:
  assumes "R = MUTEX \<or> R = ATOMIC" and r: "reachable R t n s" and e: "mpc s = MExit"
  shows "counter s = of_nat (t * iters n)"
proof -
  have "counter s = of_nat (increments s)"
    using assms(1) r reachable_mutex reachable_atomic by blast
  moreover have "increments s = t * iters n"
    using exited_all_done [OF r e] reachable_total_done [OF r] by simp
  ultimately show ?thesis by simp
qed

lemma sint_of_nat_small:
  assumes "m < 2 ^ 31"
  shows "sint (of_nat m :: int32) = int m"
proof -
  have "m < 2 ^ LENGTH(32)" using assms by simp
  then have u: "unat (of_nat m :: int32) = m" by (rule of_nat_inverse [OF refl])
  then have "unat (of_nat m :: int32) < 2 ^ 31" using assms by simp
  then have "sint (of_nat m :: int32) = int (unat (of_nat m :: int32))" by (rule sint_unat_small)
  then show ?thesis using u by simp
qed

lemma iters_int: "0 \<le> sint n \<Longrightarrow> int (iters n) = sint n"
  by (simp add: iters_def)

section \<open>Every run reaches the exit; the counter never exceeds the increments made\<close>

lemma reachable_run_ends: "reachable R t n s \<Longrightarrow> run_ends R t n s"
  unfolding run_ends_def using progress step_decreases by blast

lemma exit_reachable:
  "reachable R t n s \<Longrightarrow> \<exists>s'. reachable R t n s' \<and> mpc s' = MExit"
proof (induction "steps_left t n s" arbitrary: s rule: less_induct)
  case less
  show ?case
  proof (cases "mpc s = MExit")
    case True
    then show ?thesis using less.prems by blast
  next
    case False
    then obtain a s1 where s1: "step R t n a s = Some s1"
      using progress [OF less.prems] by blast
    have "steps_left t n s1 < steps_left t n s" using less.prems s1 by (rule step_decreases)
    moreover have "reachable R t n s1" using less.prems s1 by (rule reachable.move)
    ultimately show ?thesis using less.hyps by blast
  qed
qed

lemma counter_le_increments:
  assumes "reachable R t n s"
  shows "unat (counter s) \<le> increments s"
proof (cases R)
  case NONE
  then show ?thesis using assms reachable_none_inv by (auto simp: none_inv_def)
next
  case MUTEX
  then have "counter s = of_nat (increments s)" using assms reachable_mutex by simp
  then show ?thesis by (simp add: unat_of_nat)
next
  case ATOMIC
  then have "counter s = of_nat (increments s)" using assms reachable_atomic by simp
  then show ?thesis by (simp add: unat_of_nat)
qed

lemma tmp_le_increments:
  assumes r: "reachable R t n s" and k: "k < length (workers s)" and st: "wpc (workers s ! k) = Store"
  shows "unat (tmp (workers s ! k)) \<le> increments s"
proof (cases R)
  case NONE
  then show ?thesis using r k st reachable_none_inv by (auto simp: none_inv_def)
next
  case MUTEX
  then have "tmp (workers s ! k) = counter s"
    using r k st reachable_mutex_inv by (auto simp: mutex_inv_def)
  then show ?thesis using counter_le_increments [OF r] by simp
next
  case ATOMIC
  then have "worker_ok ATOMIC n (workers s ! k)" using reachable_workers_ok r k by auto
  then show ?thesis using st by (simp add: worker_ok_def)
qed

lemma sint_bounded:
  assumes "unat (x :: int32) \<le> m" and "m < 2 ^ 31"
  shows "sint x = int (unat x)"
proof -
  have "unat x < 2 ^ 31" using assms by (rule le_less_trans)
  then show ?thesis by (rule sint_unat_small)
qed

lemma bound_nat:
  assumes "0 \<le> sint n" and "int t * sint n < 2 ^ 31"
  shows "t * iters n < 2 ^ 31"
proof -
  have e1: "int (t * iters n) = int t * sint n" using iters_int [OF assms(1)] by simp
  have "int (t * iters n) < 2 ^ 31" unfolding e1 by (rule assms(2))
  then show ?thesis by (simp only: of_nat_less_numeral_power_cancel_iff)
qed

section \<open>Example runs\<close>

lemma run_atomic_example:
  "run ATOMIC 2 1 sched_atomic init =
     Some \<lparr>counter = 2, mtx = None,
           workers = [\<lparr>wpc = Done, i = 1, tmp = 0\<rparr>, \<lparr>wpc = Done, i = 1, tmp = 0\<rparr>],
           mpc = MExit, out = ''Final counter value: 2'' @ [CHR 0x0A], exit_code = Some 0\<rparr>"
  by (simp add: sched_atomic_def init_def main_step_def incrementCounter_step_def new_worker_def
      print_counter_def show_int_def show_nat.simps digit_char_def)

lemma run_mutex_example:
  "run MUTEX 2 1000000 sched_mutex init =
     Some \<lparr>counter = 0, mtx = Some 0,
           workers = [\<lparr>wpc = Store, i = 0, tmp = 0\<rparr>, \<lparr>wpc = Lock, i = 0, tmp = 0\<rparr>],
           mpc = MSpawn, out = [], exit_code = None\<rparr>"
  by (simp add: sched_mutex_def init_def main_step_def incrementCounter_step_def new_worker_def)

lemma iters_numeral [simp]: "iters 0 = 0" "iters 1000000 = 1000000"
  by (simp_all add: iters_def)

lemma sint_succ_small:
  assumes "unat (x :: int32) \<le> m" and "m < 2147483647"
  shows "sint (x + 1) = sint x + 1 \<and> 0 \<le> sint x \<and> sint x \<le> int m"
proof -
  have "m < 2 ^ 31" using assms(2) by simp
  with assms(1) have e: "sint x = int (unat x)" by (rule sint_bounded)
  have b: "int (unat x) < 2147483647" "int (unat x) \<le> int m" "0 \<le> int (unat x)"
    using assms by linarith+
  have mx: "sint (2147483647 :: int32) = 2147483647" by simp
  have "sint x < sint (2147483647 :: int32)" unfolding e mx by (rule b(1))
  then have "sint (x + 1) = sint x + 1" by (rule sint_succ_less)
  then show ?thesis unfolding e using b by blast
qed

lemma run_none_store_example:
  "run NONE 2 1000000 sched_none_store init =
     Some \<lparr>counter = 1, mtx = None,
           workers = [\<lparr>wpc = Store, i = 1, tmp = 1\<rparr>, \<lparr>wpc = Test, i = 0, tmp = 0\<rparr>],
           mpc = MSpawn, out = [], exit_code = None\<rparr>"
  by (simp add: sched_none_store_def init_def main_step_def incrementCounter_step_def new_worker_def)

lemma run_atomic_add_example:
  "run ATOMIC 2 1000000 sched_atomic_add init =
     Some \<lparr>counter = 1, mtx = None,
           workers = [\<lparr>wpc = Test, i = 0, tmp = 0\<rparr>, \<lparr>wpc = FetchAdd, i = 1, tmp = 0\<rparr>],
           mpc = MSpawn, out = [], exit_code = None\<rparr>"
  by (simp add: sched_atomic_add_def init_def main_step_def incrementCounter_step_def new_worker_def)

section \<open>raceCondition.cpp: what survives the lost updates\<close>

lemma incs_le_increments: "k < length (workers s) \<Longrightarrow> incs (workers s ! k) \<le> increments s"
  using elem_le_sum_list [of k "map incs (workers s)"] by (simp add: increments_def)

lemma low_inv_update:
  assumes inv: "low_inv n s" and k: "k < length (workers s)"
    and ws: "workers s' = (workers s)[k := w']"
    and a: "1 \<le> increments s' \<longrightarrow> 1 \<le> unat (counter s')"
    and b: "wpc w' = Store \<and> 1 \<le> unat (i w') \<longrightarrow> 1 \<le> unat (tmp w')"
    and j: "2 \<le> iters n \<longrightarrow>
            early w' \<or> (\<not> early (workers s ! k) \<and> counter s' = counter s) \<or> 2 \<le> unat (counter s')"
  shows "low_inv n s'"
proof -
  have len: "length (workers s') = length (workers s)" using ws by simp
  have nk: "workers s' ! k = w'" using ws k by simp
  have b': "1 \<le> unat (tmp (workers s' ! m))"
    if m: "m < length (workers s')" and st: "wpc (workers s' ! m) = Store \<and> 1 \<le> unat (i (workers s' ! m))"
    for m
  proof (cases "m = k")
    case True
    then show ?thesis using b st nk by simp
  next
    case False
    then have "workers s' ! m = workers s ! m" using ws by simp
    then show ?thesis using inv m len st by (simp add: low_inv_def)
  qed
  have j': "workers s' = [] \<or> (\<exists>m<length (workers s'). early (workers s' ! m)) \<or> 2 \<le> unat (counter s')"
    if n2: "2 \<le> iters n"
  proof -
    consider (e) "early w'" | (same) "\<not> early (workers s ! k)" "counter s' = counter s"
      | (two) "2 \<le> unat (counter s')"
      using j n2 by blast
    then show ?thesis
    proof cases
      case e
      then show ?thesis using nk k len by auto
    next
      case same
      have "workers s \<noteq> []" using k by auto
      then consider (w) m where "m < length (workers s)" "early (workers s ! m)"
        | (c) "2 \<le> unat (counter s)"
        using inv n2 by (auto simp: low_inv_def)
      then show ?thesis
      proof cases
        case w
        then have "m \<noteq> k" using same(1) by auto
        then have "workers s' ! m = workers s ! m" using ws by simp
        then show ?thesis using w len by auto
      next
        case c
        then show ?thesis using same(2) by simp
      qed
    next
      case two
      then show ?thesis by simp
    qed
  qed
  show ?thesis unfolding low_inv_def using a b' j' by blast
qed

lemma unat_succ_exact:
  assumes "unat (x :: int32) \<le> m" and "m < 2 ^ 31"
  shows "unat (x + 1) = Suc (unat x)"
proof -
  have "unat x + unat (1 :: int32) < 2 ^ LENGTH(32)" using assms by simp
  then have "unat (x + 1) = unat x + unat (1 :: int32)" by (rule iffD1 [OF unat_add_lem])
  then show ?thesis by simp
qed

lemma reachable_low_inv:
  assumes h: "t * iters n < 2 ^ 31"
  shows "reachable NONE t n s \<Longrightarrow> low_inv n s"
proof (induction rule: reachable.induct)
  case start
  show ?case by (simp add: init_def low_inv_def increments_def)
next
  case (move s a s')
  show ?case
  proof (cases a)
    case Main
    then have m: "main_step t s = Some s'" using move.hyps(2) by simp
    have sh: "increments s' = increments s" "counter s' = counter s"
      using main_step_shared [OF m] by simp_all
    from m show ?thesis
    proof (cases rule: main_step_cases)
      case Spawn
      have "early new_worker" by (simp add: early_def new_worker_def)
      then have "\<exists>k<length (workers s'). early (workers s' ! k)"
        using Spawn by (auto simp: nth_append intro!: exI [of _ "length (workers s)"])
      moreover have "\<forall>k<length (workers s').
          wpc (workers s' ! k) = Store \<and> 1 \<le> unat (i (workers s' ! k)) \<longrightarrow>
          1 \<le> unat (tmp (workers s' ! k))"
        using Spawn move.IH by (auto simp: low_inv_def nth_append new_worker_def less_Suc_eq)
      ultimately show ?thesis using move.IH sh unfolding low_inv_def by metis
    qed (use move.IH sh in \<open>simp_all add: low_inv_def\<close>)
  next
    case (Worker k)
    then have k: "k < length (workers s)" and st: "incrementCounter_step NONE n k s = Some s'"
      using move.hyps(2) by (auto split: if_splits)
    have r: "reachable NONE t n s" by (rule move.hyps(1))
    have ok: "worker_ok NONE n (workers s ! k)" using reachable_workers_ok [OF r] k by simp
    have tot: "increments s' = increments s +
        (if wpc (workers s ! k) = Store \<or> wpc (workers s ! k) = FetchAdd then 1 else 0)"
      by (rule worker_step_total [OF st ok k])
    have cnt: "counter s' =
         (if wpc (workers s ! k) = Store then tmp (workers s ! k) + 1
          else if wpc (workers s ! k) = FetchAdd then counter s + 1
          else counter s)"
      by (rule worker_step_counter [OF st])
    have nf: "wpc (workers s ! k) \<noteq> FetchAdd" using ok by (auto simp: worker_ok_def)
    have bound: "increments s < 2 ^ 31" using reachable_total_le [OF r] h by (rule le_less_trans)
    have stv: "unat (tmp (workers s ! k) + 1) = Suc (unat (tmp (workers s ! k)))"
      if "wpc (workers s ! k) = Store"
      using tmp_le_increments [OF r k that] bound by (rule unat_succ_exact)
    have a0: "1 \<le> increments s \<longrightarrow> 1 \<le> unat (counter s)" using move.IH by (simp add: low_inv_def)
    have b0: "wpc (workers s ! k) = Store \<and> 1 \<le> unat (i (workers s ! k)) \<longrightarrow>
        1 \<le> unat (tmp (workers s ! k))"
      using move.IH k by (simp add: low_inv_def)
    have a1: "1 \<le> increments s' \<longrightarrow> 1 \<le> unat (counter s')"
    proof (cases "wpc (workers s ! k) = Store")
      case True
      then show ?thesis using cnt stv by simp
    next
      case False
      then show ?thesis using cnt tot nf a0 by simp
    qed
    from st ok show ?thesis
    proof (cases rule: worker_step_cases)
      case Test_in
      show ?thesis
        by (rule low_inv_update [OF move.IH k _ a1, where w' = "(workers s ! k)\<lparr>wpc := Load\<rparr>"])
           (use Test_in in \<open>auto simp: early_def\<close>)
    next
      case Test_out
      show ?thesis
        by (rule low_inv_update [OF move.IH k _ a1, where w' = "(workers s ! k)\<lparr>wpc := Done\<rparr>"])
           (use Test_out in \<open>auto simp: early_def\<close>)
    next
      case Lock
      then show ?thesis by simp
    next
      case Load
      have "1 \<le> unat (counter s)" if "1 \<le> unat (i (workers s ! k))"
      proof -
        have "1 \<le> incs (workers s ! k)" using that by (simp add: incs_def)
        then have "1 \<le> increments s" using incs_le_increments [OF k] by simp
        then show ?thesis using a0 by simp
      qed
      then show ?thesis
        by (intro low_inv_update [OF move.IH k _ a1,
              where w' = "(workers s ! k)\<lparr>tmp := counter s, wpc := Store\<rparr>"])
           (use Load in \<open>auto simp: early_def\<close>)
    next
      case Store
      have "2 \<le> unat (counter s')" if "1 \<le> unat (i (workers s ! k))"
        using that b0 Store(2) cnt stv by simp
      then show ?thesis
        by (intro low_inv_update [OF move.IH k _ a1, where w' = "(workers s ! k)\<lparr>wpc := Incr\<rparr>"])
           (use Store in \<open>auto simp: early_def\<close>)
    next
      case Unlock
      then show ?thesis by simp
    next
      case FetchAdd
      then show ?thesis by simp
    next
      case Incr
      show ?thesis
        by (rule low_inv_update [OF move.IH k _ a1,
              where w' = "(workers s ! k)\<lparr>i := i (workers s ! k) + 1, wpc := Test\<rparr>"])
           (use Incr in \<open>auto simp: early_def\<close>)
    qed
  qed
qed

lemma race_final_lower:
  assumes t: "1 \<le> t" and h: "t * iters n < 2 ^ 31" and r: "reachable NONE t n s"
    and e: "mpc s = MExit"
  shows "min (iters n) 2 \<le> unat (counter s)"
proof -
  have inv: "low_inv n s" using h r by (rule reachable_low_inv)
  have ex: "all_done s" "length (workers s) = t" using exited_all_done [OF r e] by simp_all
  have tot: "increments s = t * iters n" using r ex by (rule reachable_total_done)
  have ok: "\<forall>w \<in> set (workers s). worker_ok NONE n w" using r by (rule reachable_workers_ok)
  show ?thesis
  proof (cases "2 \<le> iters n")
    case True
    have ne: "workers s \<noteq> []" using ex(2) t by auto
    have "\<not> early (workers s ! k)" if k: "k < length (workers s)" for k
    proof -
      have d: "wpc (workers s ! k) = Done" using ex(1) k by (simp add: all_done_nth)
      have "worker_ok NONE n (workers s ! k)" using ok k by simp
      then have "unat (i (workers s ! k)) = iters n" using d by (simp add: worker_ok_def)
      then show ?thesis using d True by (simp add: early_def)
    qed
    then have "2 \<le> unat (counter s)" using inv True ne by (auto simp: low_inv_def)
    then show ?thesis by simp
  next
    case False
    show ?thesis
    proof (cases "iters n = 0")
      case True
      then show ?thesis by simp
    next
      case False
      then have "1 \<le> increments s" using tot t by simp
      then have "1 \<le> unat (counter s)" using inv by (simp add: low_inv_def)
      then show ?thesis using \<open>\<not> 2 \<le> iters n\<close> by simp
    qed
  qed
qed

lemma reachable_alone_inv: "reachable NONE 1 n s \<Longrightarrow> alone_inv s"
proof (induction rule: reachable.induct)
  case start
  show ?case by (simp add: init_def alone_inv_def increments_def)
next
  case (move s a s')
  show ?case
  proof (cases a)
    case Main
    then have m: "main_step 1 s = Some s'" using move.hyps(2) by simp
    have sh: "increments s' = increments s" "counter s' = counter s"
      using main_step_shared [OF m] by simp_all
    from m show ?thesis
    proof (cases rule: main_step_cases)
      case Spawn
      then show ?thesis using move.IH sh
        by (auto simp: alone_inv_def nth_append new_worker_def less_Suc_eq)
    qed (use move.IH sh in \<open>simp_all add: alone_inv_def\<close>)
  next
    case (Worker k)
    then have k: "k < length (workers s)" and st: "incrementCounter_step NONE n k s = Some s'"
      using move.hyps(2) by (auto split: if_splits)
    have r: "reachable NONE 1 n s" by (rule move.hyps(1))
    have "length (workers s) \<le> 1" using reachable_main_inv [OF r] by (simp add: main_inv_def)
    then have k0: "k = 0" and l1: "length (workers s) = 1" using k by simp_all
    have ok: "worker_ok NONE n (workers s ! k)" using reachable_workers_ok [OF r] k by simp
    have tot: "increments s' = increments s +
        (if wpc (workers s ! k) = Store \<or> wpc (workers s ! k) = FetchAdd then 1 else 0)"
      by (rule worker_step_total [OF st ok k])
    have cnt: "counter s' =
         (if wpc (workers s ! k) = Store then tmp (workers s ! k) + 1
          else if wpc (workers s ! k) = FetchAdd then counter s + 1
          else counter s)"
      by (rule worker_step_counter [OF st])
    have nf: "wpc (workers s ! k) \<noteq> FetchAdd" using ok by (auto simp: worker_ok_def)
    have c0: "counter s = of_nat (increments s)" using move.IH by (simp add: alone_inv_def)
    have t0: "wpc (workers s ! k) = Store \<longrightarrow> tmp (workers s ! k) = counter s"
      using move.IH k by (simp add: alone_inv_def)
    have c1: "counter s' = of_nat (increments s')" using cnt tot nf c0 t0 by simp
    have l1': "length (workers s') = 1" using worker_step_frame [OF st] l1 by simp
    have t1: "wpc (workers s' ! 0) = Store \<longrightarrow> tmp (workers s' ! 0) = counter s'"
      using st ok k0 l1 by (cases rule: worker_step_cases) auto
    show ?thesis unfolding alone_inv_def using c1 t1 l1' by simp
  qed
qed

lemma alone_final:
  assumes r: "reachable NONE 1 n s" and e: "mpc s = MExit"
  shows "counter s = of_nat (iters n)"
proof -
  have "counter s = of_nat (increments s)" using reachable_alone_inv [OF r] by (simp add: alone_inv_def)
  moreover have "increments s = 1 * iters n"
    using exited_all_done [OF r e] reachable_total_done [OF r] by simp
  ultimately show ?thesis by simp
qed

lemma run_lost: "run NONE 2 3 sched_lost init = Some lost_final"
  by (simp add: sched_lost_def lost_final_def init_def main_step_def incrementCounter_step_def
      new_worker_def print_counter_def show_int_def show_nat.simps digit_char_def)

lemma run_stale: "run NONE 2 1000000 sched_stale init = Some stale_before"
  by (simp add: sched_stale_def stale_before_def init_def main_step_def incrementCounter_step_def
      new_worker_def)

lemma step_stale: "step NONE 2 1000000 (Worker 0) stale_before = Some stale_after"
  by (simp add: stale_before_def stale_after_def incrementCounter_step_def)

lemma run_mutex_before: "run MUTEX 2 1000000 sched_mutex init = Some mutex_before"
  by (simp add: run_mutex_example mutex_before_def)

lemma step_mutex_before: "step MUTEX 2 1000000 (Worker 0) mutex_before = Some mutex_after"
  by (simp add: mutex_before_def mutex_after_def incrementCounter_step_def)

section \<open>simpleMultiThreading.cpp: joins and output\<close>

lemma simple_main_step_cases [consumes 1, case_names Spawn Spawned Join Joined Return]:
  assumes "simple_main_step t s = Some s'"
  obtains
    (Spawn) "pmpc s = PSpawn" "length (printers s) < t"
      "s' = s\<lparr>printers := printers s @ [\<lparr>ppc = PThread, pid = of_nat (length (printers s)) + 1\<rparr>]\<rparr>"
  | (Spawned) "pmpc s = PSpawn" "\<not> length (printers s) < t" "s' = s\<lparr>pmpc := PJoin 0\<rparr>"
  | (Join) k where "pmpc s = PJoin k" "k < t" "k < length (printers s)"
      "ppc (printers s ! k) = PDone" "s' = s\<lparr>pmpc := PJoin (Suc k)\<rparr>"
  | (Joined) k where "pmpc s = PJoin k" "\<not> k < t" "s' = s\<lparr>pmpc := PReturn\<rparr>"
  | (Return) "pmpc s = PReturn" "s' = s\<lparr>pexit_code := Some 0, pmpc := PExit\<rparr>"
  using assms by (cases "pmpc s") (auto simp: simple_main_step_def split: if_splits)

lemma printMessage_step_effect:
  assumes "printMessage_step k s = Some s'" and "k < length (printers s)"
  shows "ppc (printers s ! k) \<noteq> PDone \<and>
         pout s' = pout s @ message (pid (printers s ! k)) ! sent (ppc (printers s ! k)) \<and>
         length (printers s') = length (printers s) \<and>
         sent (ppc (printers s' ! k)) = Suc (sent (ppc (printers s ! k))) \<and>
         pid (printers s' ! k) = pid (printers s ! k) \<and>
         (\<forall>j. j \<noteq> k \<longrightarrow> printers s' ! j = printers s ! j) \<and>
         pmpc s' = pmpc s \<and> pexit_code s' = pexit_code s"
  using assms
  by (cases "ppc (printers s ! k)") (auto simp: printMessage_step_def Let_def message_def)

lemma pall_done_nth:
  "pall_done s \<longleftrightarrow> (\<forall>j<length (printers s). ppc (printers s ! j) = PDone)"
  by (simp add: pall_done_def all_set_conv_all_nth)

lemma preachable_main_inv: "preachable t s \<Longrightarrow> pmain_inv t s"
proof (induction rule: preachable.induct)
  case pstart
  show ?case by (simp add: pmain_inv_def pinit_def)
next
  case (pmove s a s')
  show ?case
  proof (cases a)
    case Main
    then have "simple_main_step t s = Some s'" using pmove.hyps(2) by simp
    then show ?thesis
    proof (cases rule: simple_main_step_cases)
      case Spawn
      then show ?thesis using pmove.IH by (auto simp: pmain_inv_def nth_append less_Suc_eq)
    next
      case Spawned
      then show ?thesis using pmove.IH by (auto simp: pmain_inv_def)
    next
      case (Join k)
      then show ?thesis using pmove.IH by (auto simp: pmain_inv_def less_Suc_eq)
    next
      case (Joined k)
      then show ?thesis using pmove.IH by (auto simp: pmain_inv_def pall_done_nth)
    next
      case Return
      then show ?thesis using pmove.IH by (auto simp: pmain_inv_def pall_done_def)
    qed
  next
    case (Worker k)
    then have k: "k < length (printers s)" and st: "printMessage_step k s = Some s'"
      using pmove.hyps(2) by (auto split: if_splits)
    have fr: "ppc (printers s ! k) \<noteq> PDone" "length (printers s') = length (printers s)"
      "pid (printers s' ! k) = pid (printers s ! k)"
      "\<And>j. j \<noteq> k \<Longrightarrow> printers s' ! j = printers s ! j"
      "pmpc s' = pmpc s" "pexit_code s' = pexit_code s"
      using printMessage_step_effect [OF st k] by auto
    have nd: "\<not> pall_done s" using fr(1) k by (auto simp: pall_done_nth)
    have ids: "\<forall>j<length (printers s'). pid (printers s' ! j) = of_nat j + 1"
    proof (intro allI impI)
      fix j assume "j < length (printers s')"
      then have "pid (printers s ! j) = of_nat j + 1" using pmove.IH fr(2) by (simp add: pmain_inv_def)
      then show "pid (printers s' ! j) = of_nat j + 1" using fr(3,4) by (cases "j = k") simp_all
    qed
    show ?thesis
    proof (cases "pmpc s")
      case PSpawn
      then show ?thesis using pmove.IH fr ids by (simp add: pmain_inv_def)
    next
      case (PJoin m)
      then have d: "\<forall>j<m. ppc (printers s ! j) = PDone" using pmove.IH by (simp add: pmain_inv_def)
      have "\<forall>j<m. ppc (printers s' ! j) = PDone"
      proof (intro allI impI)
        fix j assume "j < m"
        then have e: "ppc (printers s ! j) = PDone" using d by simp
        then have "j \<noteq> k" using fr(1) by auto
        then show "ppc (printers s' ! j) = PDone" using fr(4) e by simp
      qed
      then show ?thesis using PJoin pmove.IH fr ids by (simp add: pmain_inv_def)
    next
      case PReturn
      then show ?thesis using pmove.IH nd by (simp add: pmain_inv_def)
    next
      case PExit
      then show ?thesis using pmove.IH nd by (simp add: pmain_inv_def)
    qed
  qed
qed

lemma shuffles_snoc_left: "zs \<in> shuffles xs ys \<Longrightarrow> zs @ [x] \<in> shuffles (xs @ [x]) ys"
proof (induction xs ys arbitrary: zs rule: shuffles.induct)
  case (1 ys)
  then have "zs = ys" by simp
  have "ys @ [x] \<in> shuffles [x] ys"
  proof (induction ys)
    case Nil
    then show ?case by simp
  next
    case (Cons y ys)
    then show ?case by (simp add: Cons_in_shuffles_rightI)
  qed
  then show ?case using \<open>zs = ys\<close> by simp
next
  case (2 xs)
  then show ?case by simp
next
  case (3 a xs b ys)
  then show ?case by (auto simp: Cons_in_shuffles_leftI Cons_in_shuffles_rightI)
qed

lemma shuffles_snoc_right: "zs \<in> shuffles xs ys \<Longrightarrow> zs @ [y] \<in> shuffles xs (ys @ [y])"
  using shuffles_snoc_left [of zs ys xs y] by (simp add: shuffles_commutes)

lemma emitted_step_same:
  assumes "printMessage_step k s = Some s'" and "k < length (printers s)"
  shows "emitted k s' = emitted k s @ [message (pid (printers s ! k)) ! sent (ppc (printers s ! k))]"
proof -
  have e: "ppc (printers s ! k) \<noteq> PDone" "length (printers s') = length (printers s)"
    "sent (ppc (printers s' ! k)) = Suc (sent (ppc (printers s ! k)))"
    "pid (printers s' ! k) = pid (printers s ! k)"
    using printMessage_step_effect [OF assms] by simp_all
  have "sent (ppc (printers s ! k)) < length (message (pid (printers s ! k)))"
    using e(1) by (cases "ppc (printers s ! k)") (simp_all add: message_def)
  then show ?thesis using e assms(2) by (simp add: emitted_def take_Suc_conv_app_nth)
qed

lemma emitted_step_other:
  assumes "printMessage_step k s = Some s'" and "k < length (printers s)" and "j \<noteq> k"
  shows "emitted j s' = emitted j s"
  using printMessage_step_effect [OF assms(1,2)] assms(3) by (simp add: emitted_def)

lemma preachable_out_inv: "preachable 2 s \<Longrightarrow> pout_inv s"
proof (induction rule: preachable.induct)
  case pstart
  show ?case by (simp add: pout_inv_def pinit_def emitted_def)
next
  case (pmove s a s')
  show ?case
  proof (cases a)
    case Main
    then have "simple_main_step 2 s = Some s'" using pmove.hyps(2) by simp
    then have "emitted 0 s' = emitted 0 s \<and> emitted 1 s' = emitted 1 s \<and> pout s' = pout s"
    proof (cases rule: simple_main_step_cases)
      case Spawn
      then show ?thesis by (auto simp: emitted_def nth_append less_Suc_eq)
    qed (simp_all add: emitted_def)
    then show ?thesis using pmove.IH by (simp add: pout_inv_def)
  next
    case (Worker k)
    then have k: "k < length (printers s)" and st: "printMessage_step k s = Some s'"
      using pmove.hyps(2) by (auto split: if_splits)
    have "length (printers s) \<le> 2"
      using preachable_main_inv [OF pmove.hyps(1)] by (simp add: pmain_inv_def)
    then have k01: "k = 0 \<or> k = 1" using k by auto
    define tok where "tok = message (pid (printers s ! k)) ! sent (ppc (printers s ! k))"
    have o: "pout s' = pout s @ tok"
      using printMessage_step_effect [OF st k] by (simp add: tok_def)
    obtain zs where zs: "zs \<in> shuffles (emitted 0 s) (emitted 1 s)" "pout s = concat zs"
      using pmove.IH by (auto simp: pout_inv_def)
    have c: "pout s' = concat (zs @ [tok])" using o zs(2) by simp
    from k01 show ?thesis
    proof
      assume k0: "k = 0"
      have e0: "emitted 0 s' = emitted 0 s @ [tok]"
        using emitted_step_same [OF st k] k0 by (simp add: tok_def)
      have e1: "emitted 1 s' = emitted 1 s" using emitted_step_other [OF st k, of 1] k0 by simp
      have m: "zs @ [tok] \<in> shuffles (emitted 0 s @ [tok]) (emitted 1 s)"
        using zs(1) by (rule shuffles_snoc_left)
      have "pout s' \<in> concat ` shuffles (emitted 0 s @ [tok]) (emitted 1 s)"
        using c m by (rule image_eqI)
      then show ?thesis unfolding pout_inv_def e0 e1 .
    next
      assume k1: "k = 1"
      have e1: "emitted 1 s' = emitted 1 s @ [tok]"
        using emitted_step_same [OF st k] k1 by (simp add: tok_def)
      have e0: "emitted 0 s' = emitted 0 s" using emitted_step_other [OF st k, of 0] k1 by simp
      have m: "zs @ [tok] \<in> shuffles (emitted 0 s) (emitted 1 s @ [tok])"
        using zs(1) by (rule shuffles_snoc_right)
      have "pout s' \<in> concat ` shuffles (emitted 0 s) (emitted 1 s @ [tok])"
        using c m by (rule image_eqI)
      then show ?thesis unfolding pout_inv_def e0 e1 .
    qed
  qed
qed

lemma shuffles_sum:
  "zs \<in> shuffles xs ys \<Longrightarrow>
   sum_list (map f zs) = sum_list (map f xs) + (sum_list (map f ys) :: nat)"
  by (induction xs ys arbitrary: zs rule: shuffles.induct) auto

lemma newlines_concat:
  "length (filter P (concat zs)) = sum_list (map (\<lambda>z. length (filter P z)) zs)"
  by (induction zs) simp_all

lemma message_1_2:
  "message 1 = [''Thread '', ''1'', '' is running'' @ [CHR 0x0A]]"
  "message 2 = [''Thread '', ''2'', '' is running'' @ [CHR 0x0A]]"
  by (simp_all add: message_def show_int_def show_nat.simps digit_char_def)

lemma exit_emitted:
  assumes r: "preachable 2 s" and e: "pmpc s = PExit"
  shows "emitted 0 s = message 1 \<and> emitted 1 s = message 2"
proof -
  have inv: "pmain_inv 2 s" using r by (rule preachable_main_inv)
  then have l: "length (printers s) = 2" and d: "pall_done s" using e by (simp_all add: pmain_inv_def)
  have "ppc (printers s ! 0) = PDone" "ppc (printers s ! 1) = PDone"
    using d l by (simp_all add: pall_done_nth)
  moreover have "pid (printers s ! 0) = 1" "pid (printers s ! 1) = 2"
    using inv l by (simp_all add: pmain_inv_def)
  ultimately show ?thesis using l by (simp add: emitted_def message_def)
qed

section \<open>simpleMultiThreading.cpp: every run ends\<close>

lemma simple_main_step_decreases:
  assumes "simple_main_step t s = Some s'"
  shows "psteps_left t s' < psteps_left t s"
  using assms
proof (cases rule: simple_main_step_cases)
  case Spawn
  have "t - length (printers s) = Suc (t - Suc (length (printers s)))" using Spawn(2) by simp
  then show ?thesis using Spawn by (simp add: psteps_left_def)
qed (simp_all add: psteps_left_def)

lemma printMessage_step_decreases:
  assumes st: "printMessage_step k s = Some s'" and k: "k < length (printers s)"
  shows "psteps_left t s' < psteps_left t s"
proof -
  have upd: "\<And>p. sum_list (map (\<lambda>p. 3 - sent (ppc p)) ((printers s)[k := p])) +
                  (3 - sent (ppc (printers s ! k))) =
                 sum_list (map (\<lambda>p. 3 - sent (ppc p)) (printers s)) + (3 - sent (ppc p))"
    using k by (rule sum_list_map_update)
  show ?thesis
  proof (cases "ppc (printers s ! k)")
    case PThread
    then show ?thesis using st upd [of "(printers s ! k)\<lparr>ppc := PId\<rparr>"]
      by (auto simp: printMessage_step_def Let_def psteps_left_def)
  next
    case PId
    then show ?thesis using st upd [of "(printers s ! k)\<lparr>ppc := PRunning\<rparr>"]
      by (auto simp: printMessage_step_def Let_def psteps_left_def)
  next
    case PRunning
    then show ?thesis using st upd [of "(printers s ! k)\<lparr>ppc := PDone\<rparr>"]
      by (auto simp: printMessage_step_def Let_def psteps_left_def)
  next
    case PDone
    then show ?thesis using st by (simp add: printMessage_step_def Let_def)
  qed
qed

lemma pstep_decreases:
  assumes "pstep t a s = Some s'"
  shows "psteps_left t s' < psteps_left t s"
proof (cases a)
  case Main
  then show ?thesis using assms simple_main_step_decreases by simp
next
  case (Worker k)
  then have "k < length (printers s)" "printMessage_step k s = Some s'"
    using assms by (auto split: if_splits)
  then show ?thesis using printMessage_step_decreases by blast
qed

lemma pprogress:
  assumes r: "preachable t s" and ne: "pmpc s \<noteq> PExit"
  shows "\<exists>a s'. pstep t a s = Some s'"
proof (cases "\<exists>s'. simple_main_step t s = Some s'")
  case True
  then obtain s' where "pstep t Main s = Some s'" by auto
  then show ?thesis by blast
next
  case False
  then obtain k where mk: "pmpc s = PJoin k" and kt: "k < t"
    and nd: "\<not> (k < length (printers s) \<and> ppc (printers s ! k) = PDone)"
    using ne by (cases "pmpc s") (auto simp: simple_main_step_def split: if_splits)
  have "length (printers s) = t" using preachable_main_inv [OF r] mk by (simp add: pmain_inv_def)
  then have kl: "k < length (printers s)" and nd': "ppc (printers s ! k) \<noteq> PDone"
    using kt nd by auto
  then obtain s' where "printMessage_step k s = Some s'"
    by (cases "ppc (printers s ! k)") (auto simp: printMessage_step_def Let_def)
  then have "pstep t (Worker k) s = Some s'" using kl by simp
  then show ?thesis by blast
qed

lemma preachable_run_ends: "preachable t s \<Longrightarrow> prun_ends t s"
  unfolding prun_ends_def using pprogress pstep_decreases by blast

lemma prun_reachable:
  "preachable t s \<Longrightarrow> prun t sched s = Some s' \<Longrightarrow> preachable t s'"
proof (induction sched arbitrary: s)
  case Nil
  then show ?case by simp
next
  case (Cons a sched)
  from Cons.prems(2) obtain s1 where s1: "pstep t a s = Some s1" "prun t sched s1 = Some s'"
    by (auto split: option.splits)
  have "preachable t s1" using Cons.prems(1) s1(1) by (rule preachable.pmove)
  then show ?case using s1(2) by (rule Cons.IH)
qed

lemma digit_char_no_newline: "d < 10 \<Longrightarrow> digit_char d \<noteq> CHR 0x0A"
proof -
  assume "d < 10"
  then have "d < length ''0123456789''" by simp
  then have "''0123456789'' ! d \<in> set ''0123456789''" by (rule nth_mem)
  then show ?thesis unfolding digit_char_def by auto
qed

lemma show_nat_no_newline: "CHR 0x0A \<notin> set (show_nat m)"
proof (induction m rule: show_nat.induct)
  case (1 m)
  show ?case
  proof (cases "m < 10")
    case True
    then show ?thesis using digit_char_no_newline [of m] by (subst show_nat.simps) auto
  next
    case False
    have "m mod 10 < 10" by simp
    then have "digit_char (m mod 10) \<noteq> CHR 0x0A" by (rule digit_char_no_newline)
    then show ?thesis using False "1.IH" by (subst show_nat.simps) auto
  qed
qed

lemma count_lines_print_counter: "count_lines (print_counter c) = 1"
proof -
  have "filter (\<lambda>c. c = CHR 0x0A) (show_int v) = []" for v
    using show_nat_no_newline by (auto simp: show_int_def filter_empty_conv)
  then show ?thesis by (simp add: count_lines_def print_counter_def)
qed

lemma run_mixed: "prun 2 sched_mixed pinit = Some mixed_final"
  by (simp add: sched_mixed_def mixed_final_def pinit_def simple_main_step_def printMessage_step_def
      show_int_def show_nat.simps digit_char_def)

lemma run_in_turn: "prun 2 sched_in_turn pinit = Some in_turn_final"
  by (simp add: sched_in_turn_def in_turn_final_def pinit_def simple_main_step_def
      printMessage_step_def show_int_def show_nat.simps digit_char_def)

section \<open>One thread: the transition system agrees with the sequential loop\<close>

lemma single_thread_agrees:
  assumes "0 \<le> sint n" and "reachable R 1 n s" and "mpc s = MExit"
  shows "counter s = incrementCounter n 0"
proof -
  have "unat (0 :: int32) \<le> iters n" by simp
  then have "incrementCounter_loop n 0 0 = 0 + of_nat (iters n - unat (0 :: int32))"
    by (rule incrementCounter_loop_eq)
  then have a: "incrementCounter n 0 = of_nat (iters n)" by (simp add: incrementCounter_def)
  have "counter s = of_nat (iters n)"
  proof (cases R)
    case NONE
    then show ?thesis using assms(2,3) alone_final by simp
  next
    case MUTEX
    then show ?thesis using exact_final [of R 1 n s] assms(2,3) by simp
  next
    case ATOMIC
    then show ?thesis using exact_final [of R 1 n s] assms(2,3) by simp
  qed
  then show ?thesis using a by simp
qed

section \<open>mutex.cpp: taking and releasing the lock\<close>

lemma step_mutex_after: "step MUTEX 2 1000000 (Worker 0) mutex_after = Some mutex_released"
  by (simp add: mutex_after_def mutex_released_def incrementCounter_step_def)

lemma run_mutex_release: "run MUTEX 2 1000000 sched_mutex_release init = Some mutex_released"
proof -
  have "run MUTEX 2 1000000 (xs @ ys) s0 = run MUTEX 2 1000000 ys s1"
    if "run MUTEX 2 1000000 xs s0 = Some s1" for xs ys s0 s1
    using that by (induction xs arbitrary: s0) (auto split: option.splits)
  then have "run MUTEX 2 1000000 sched_mutex_release init =
      run MUTEX 2 1000000 [Worker 0, Worker 0] mutex_before"
    unfolding sched_mutex_release_def using run_mutex_before by blast
  also have "\<dots> = Some mutex_released"
    using step_mutex_before step_mutex_after by simp
  finally show ?thesis .
qed

lemma mutex_steps:
  assumes inv: "mutex_inv s" and k: "k < length (workers s)"
  shows "(wpc (workers s ! k) = Lock \<and> mtx s = None \<longrightarrow>
            (\<exists>s'. step MUTEX t n (Worker k) s = Some s' \<and> wpc (workers s' ! k) = Load \<and>
                  mtx s' = Some k \<and> counter s' = counter s)) \<and>
         (wpc (workers s ! k) = Lock \<and> mtx s \<noteq> None \<longrightarrow> step MUTEX t n (Worker k) s = None) \<and>
         (wpc (workers s ! k) = Load \<longrightarrow>
            (\<exists>s'. step MUTEX t n (Worker k) s = Some s' \<and> wpc (workers s' ! k) = Store \<and>
                  mtx s' = Some k \<and> counter s' = counter s)) \<and>
         (wpc (workers s ! k) = Store \<longrightarrow>
            (\<exists>s'. step MUTEX t n (Worker k) s = Some s' \<and> wpc (workers s' ! k) = Unlock \<and>
                  mtx s' = Some k \<and> counter s' = counter s + 1)) \<and>
         (wpc (workers s ! k) = Unlock \<longrightarrow>
            (\<exists>s'. step MUTEX t n (Worker k) s = Some s' \<and> wpc (workers s' ! k) = Incr \<and>
                  mtx s' = None \<and> counter s' = counter s)) \<and>
         (wpc (workers s ! k) = Incr \<longrightarrow>
            (\<exists>s'. step MUTEX t n (Worker k) s = Some s' \<and> wpc (workers s' ! k) = Test \<and>
                  mtx s' = mtx s \<and> counter s' = counter s))"
proof -
  have own: "in_cs (workers s ! k) \<longleftrightarrow> mtx s = Some k" using inv k by (simp add: mutex_inv_def)
  have tk: "wpc (workers s ! k) = Store \<longrightarrow> tmp (workers s ! k) = counter s"
    using inv k by (simp add: mutex_inv_def)
  show ?thesis using k own tk
    by (auto simp: incrementCounter_step_def Let_def in_cs_def)
qed

section \<open>simpleMultiThreading.cpp: the output follows the schedule\<close>

lemma run_in_turn_rev: "prun 2 sched_in_turn_rev pinit = Some in_turn_rev_final"
  by (simp add: sched_in_turn_rev_def in_turn_rev_final_def pinit_def simple_main_step_def
      printMessage_step_def show_int_def show_nat.simps digit_char_def)

lemma simple_main_step_inserted:
  assumes "simple_main_step t s = Some s'"
  shows "inserted s' = inserted s \<and> pout s' = pout s"
  using assms
proof (cases rule: simple_main_step_cases)
  case Spawn
  have "inserted s' k = inserted s k" for k
    using Spawn by (auto simp: inserted_def nth_append less_Suc_eq)
  then show ?thesis using Spawn by auto
qed (auto simp: inserted_def)

lemma printMessage_step_inserted:
  assumes st: "printMessage_step k s = Some s'" and k: "k < length (printers s)"
  shows "inserted s' = (inserted s)(k := Suc (inserted s k))"
proof
  fix j
  have e: "length (printers s') = length (printers s)"
    "sent (ppc (printers s' ! k)) = Suc (sent (ppc (printers s ! k)))"
    "\<And>j. j \<noteq> k \<Longrightarrow> printers s' ! j = printers s ! j"
    using printMessage_step_effect [OF st k] by simp_all
  show "inserted s' j = ((inserted s)(k := Suc (inserted s k))) j"
    using e k by (cases "j = k") (simp_all add: inserted_def)
qed

lemma run_output:
  "preachable t s \<Longrightarrow> prun t sched s = Some s' \<Longrightarrow>
   pout s' = pout s @ replay (said sched) (inserted s)"
proof (induction sched arbitrary: s)
  case Nil
  then show ?case by simp
next
  case (Cons a sched)
  from Cons.prems(2) obtain s1 where s1: "pstep t a s = Some s1" "prun t sched s1 = Some s'"
    by (auto split: option.splits)
  have r1: "preachable t s1" using Cons.prems(1) s1(1) by (rule preachable.pmove)
  have ih: "pout s' = pout s1 @ replay (said sched) (inserted s1)" using r1 s1(2) by (rule Cons.IH)
  show ?case
  proof (cases a)
    case Main
    then have "simple_main_step t s = Some s1" using s1(1) by simp
    then have "inserted s1 = inserted s" "pout s1 = pout s"
      using simple_main_step_inserted by blast+
    then show ?thesis using ih Main by simp
  next
    case (Worker k)
    then have k: "k < length (printers s)" and st: "printMessage_step k s = Some s1"
      using s1(1) by (auto split: if_splits)
    have id: "pid (printers s ! k) = of_nat k + 1"
      using preachable_main_inv [OF Cons.prems(1)] k by (simp add: pmain_inv_def)
    have o: "pout s1 = pout s @ message (of_nat k + 1) ! inserted s k"
      using printMessage_step_effect [OF st k] id k by (simp add: inserted_def)
    have c: "inserted s1 = (inserted s)(k := Suc (inserted s k))"
      using st k by (rule printMessage_step_inserted)
    show ?thesis using ih Worker o c by simp
  qed
qed

lemma inserted_pinit: "inserted pinit = (\<lambda>k. 0)"
  by (rule ext) (simp add: inserted_def pinit_def)

lemma replay_in_turn:
  "replay [0, 0, 0, 1, 1, 1] (\<lambda>k. 0) =
     ''Thread 1 is running'' @ [CHR 0x0A] @ ''Thread 2 is running'' @ [CHR 0x0A]"
  "replay [1, 1, 1, 0, 0, 0] (\<lambda>k. 0) =
     ''Thread 2 is running'' @ [CHR 0x0A] @ ''Thread 1 is running'' @ [CHR 0x0A]"
  by (simp_all add: message_1_2)

lemma prun_snoc:
  "prun t (xs @ [a]) s = (case prun t xs s of None \<Rightarrow> None | Some s1 \<Rightarrow> pstep t a s1)"
  by (induction xs arbitrary: s) (auto split: option.splits)

lemma said_snoc: "said (xs @ [a]) = said xs @ (case a of Main \<Rightarrow> [] | Worker k \<Rightarrow> [k])"
  by (induction xs rule: said.induct) (auto split: actor.splits)

lemma said_shuffle:
  "prun 2 sched pinit = Some s \<Longrightarrow>
   said sched \<in> shuffles (replicate (inserted s 0) 0) (replicate (inserted s 1) 1)"
proof (induction sched arbitrary: s rule: rev_induct)
  case Nil
  then show ?case by (simp add: inserted_pinit)
next
  case (snoc a xs)
  from snoc.prems obtain s1 where s1: "prun 2 xs pinit = Some s1" "pstep 2 a s1 = Some s"
    by (auto simp: prun_snoc split: option.splits)
  have r1: "preachable 2 s1" using preachable.pstart s1(1) by (rule prun_reachable)
  have ih: "said xs \<in> shuffles (replicate (inserted s1 0) 0) (replicate (inserted s1 1) 1)"
    using s1(1) by (rule snoc.IH)
  show ?case
  proof (cases a)
    case Main
    then have "simple_main_step 2 s1 = Some s" using s1(2) by simp
    then have "inserted s = inserted s1" using simple_main_step_inserted by blast
    then show ?thesis using ih Main by (simp add: said_snoc)
  next
    case (Worker k)
    then have k: "k < length (printers s1)" and st: "printMessage_step k s1 = Some s"
      using s1(2) by (auto split: if_splits)
    have "length (printers s1) \<le> 2" using preachable_main_inv [OF r1] by (simp add: pmain_inv_def)
    then have k01: "k = 0 \<or> k = 1" using k by auto
    have c: "inserted s = (inserted s1)(k := Suc (inserted s1 k))"
      using st k by (rule printMessage_step_inserted)
    have sa: "said (xs @ [a]) = said xs @ [k]" using Worker by (simp add: said_snoc)
    from k01 show ?thesis
    proof
      assume k0: "k = 0"
      have "said xs @ [0] \<in> shuffles (replicate (inserted s1 0) 0 @ [0]) (replicate (inserted s1 1) 1)"
        using ih by (rule shuffles_snoc_left)
      then show ?thesis unfolding sa c k0 by (simp add: replicate_append_same)
    next
      assume k1: "k = 1"
      have "said xs @ [1] \<in> shuffles (replicate (inserted s1 0) 0) (replicate (inserted s1 1) 1 @ [1])"
        using ih by (rule shuffles_snoc_right)
      then show ?thesis unfolding sa c k1 by (simp add: replicate_append_same)
    qed
  qed
qed

lemma exit_inserted:
  assumes r: "preachable 2 s" and e: "pmpc s = PExit"
  shows "inserted s 0 = 3 \<and> inserted s 1 = 3"
proof -
  have inv: "pmain_inv 2 s" using r by (rule preachable_main_inv)
  then have l: "length (printers s) = 2" and d: "pall_done s" using e by (simp_all add: pmain_inv_def)
  have "ppc (printers s ! 0) = PDone" "ppc (printers s ! 1) = PDone"
    using d l by (simp_all add: pall_done_nth)
  then show ?thesis using l by (simp add: inserted_def)
qed

lemma said_at_exit:
  assumes "prun 2 sched pinit = Some s" and "pmpc s = PExit"
  shows "said sched \<in> shuffles [0, 0, 0] [1, 1, 1]"
proof -
  have r: "preachable 2 s" using preachable.pstart assms(1) by (rule prun_reachable)
  have "replicate (inserted s 0) (0 :: nat) = [0, 0, 0]" "replicate (inserted s 1) (1 :: nat) = [1, 1, 1]"
    using exit_inserted [OF r assms(2)] by (simp_all add: numeral_3_eq_3)
  then show ?thesis using said_shuffle [OF assms(1)] by simp
qed

lemma preachable_run: "preachable t s \<Longrightarrow> \<exists>sched. prun t sched pinit = Some s"
proof (induction rule: preachable.induct)
  case pstart
  have "prun t [] pinit = Some pinit" by simp
  then show ?case by blast
next
  case (pmove s a s')
  then obtain sched where "prun t sched pinit = Some s" by blast
  then have "prun t (sched @ [a]) pinit = Some s'" using pmove.hyps(2) by (simp add: prun_snoc)
  then show ?case by blast
qed

section \<open>The claims\<close>

text \<open>
  C1.  In mutex.cpp and atomic.cpp, with \<open>t\<close> threads and a loop bound \<open>n \<ge> 0\<close>, every
  run ends (no reachable state short of the exit is stuck, and every step lowers
  \<open>steps_left\<close>), and at the exit the counter is \<open>t * n\<close> in 32-bit arithmetic, which
  is the integer \<open>t * n\<close> whenever that fits an \<^verbatim>\<open>int\<close>; for the constants of the
  sources, 2000000.
\<close>

theorem exact_final_counter:
  assumes "R = MUTEX \<or> R = ATOMIC" and "0 \<le> sint n" and "reachable R t n s"
  shows "run_ends R t n s \<and>
         (mpc s = MExit \<longrightarrow>
            counter s = of_nat t * n \<and>
            (int t * sint n < 2 ^ 31 \<longrightarrow> sint (counter s) = int t * sint n))"
proof (intro conjI impI)
  show "run_ends R t n s" using assms(3) by (rule reachable_run_ends)
next
  assume e: "mpc s = MExit"
  have c: "counter s = of_nat (t * iters n)" using assms(1,3) e by (rule exact_final)
  then show "counter s = of_nat t * n" using iters_word [OF assms(2)] by simp
  assume b: "int t * sint n < 2 ^ 31"
  have e1: "int (t * iters n) = int t * sint n" using iters_int [OF assms(2)] by simp
  have "t * iters n < 2 ^ 31" using assms(2) b by (rule bound_nat)
  then have "sint (of_nat (t * iters n) :: int32) = int (t * iters n)" by (rule sint_of_nat_small)
  then show "sint (counter s) = int t * sint n" using c e1 by simp
qed

theorem exact_final_counter_witness:
  "(\<exists>s. reachable MUTEX 2 1000000 s \<and> mpc s = MExit \<and> sint (counter s) = 2000000) \<and>
   (\<exists>s. reachable ATOMIC 2 1000000 s \<and> mpc s = MExit \<and> sint (counter s) = 2000000) \<and>
   (\<exists>s. run ATOMIC 2 1 sched_atomic init = Some s \<and> mpc s = MExit \<and> counter s = 2)"
proof (intro conjI)
  have n: "0 \<le> sint (1000000 :: int32)" by simp
  obtain s where s: "reachable MUTEX 2 1000000 s" "mpc s = MExit"
    using exit_reachable [OF reachable.start] by blast
  have "sint (counter s) = 2000000"
    using exact_final_counter [OF _ n s(1)] s(2) by simp
  then show "\<exists>s. reachable MUTEX 2 1000000 s \<and> mpc s = MExit \<and> sint (counter s) = 2000000"
    using s by blast
  obtain s where s: "reachable ATOMIC 2 1000000 s" "mpc s = MExit"
    using exit_reachable [OF reachable.start] by blast
  have "sint (counter s) = 2000000"
    using exact_final_counter [OF _ n s(1)] s(2) by simp
  then show "\<exists>s. reachable ATOMIC 2 1000000 s \<and> mpc s = MExit \<and> sint (counter s) = 2000000"
    using s by blast
  obtain s where r: "run ATOMIC 2 1 sched_atomic init = Some s" and e: "mpc s = MExit"
    using run_atomic_example by simp
  have "reachable ATOMIC 2 1 s" using reachable.start r by (rule run_reachable)
  then have "counter s = 2" using exact_final_counter [of ATOMIC 1 2 s] e by simp
  then show "\<exists>s. run ATOMIC 2 1 sched_atomic init = Some s \<and> mpc s = MExit \<and> counter s = 2"
    using r e by blast
qed

text \<open>
  C2, as stated, fails.  In raceCondition.cpp with two threads and three iterations
  each, the schedule \<open>sched_lost\<close> ends with the counter at 2, below one thread's
  three increments: thread 0 reads 0, thread 1 completes two iterations, thread 0
  writes 1, thread 1 reads 1, thread 0 completes its loop, thread 1 writes 2.
\<close>

theorem race_lower_bound_counterexample:
  "run NONE 2 3 sched_lost init = Some lost_final \<and> mpc lost_final = MExit \<and>
   sint (counter lost_final) = 2 \<and> \<not> (sint (3 :: int32) \<le> sint (counter lost_final))"
  using run_lost by (simp add: lost_final_def)

text \<open>
  C2, amended.  In raceCondition.cpp with \<open>t \<ge> 1\<close> threads and a loop bound \<open>n \<ge> 0\<close>
  such that \<open>t * n\<close> fits an \<^verbatim>\<open>int\<close>, every run ends, and the final counter value is
  at least \<open>min n 2\<close> and at most \<open>t * n\<close>; with a single thread it is \<open>n\<close>.
\<close>

theorem race_final_bounds:
  assumes "1 \<le> t" and "0 \<le> sint n" and "int t * sint n < 2 ^ 31" and "reachable NONE t n s"
  shows "run_ends NONE t n s \<and>
         (mpc s = MExit \<longrightarrow>
            min (sint n) 2 \<le> sint (counter s) \<and> sint (counter s) \<le> int t * sint n \<and>
            (t = 1 \<longrightarrow> sint (counter s) = sint n))"
proof (intro conjI impI)
  show "run_ends NONE t n s" using assms(4) by (rule reachable_run_ends)
next
  assume e: "mpc s = MExit"
  have h: "t * iters n < 2 ^ 31" using assms(2,3) by (rule bound_nat)
  have up: "unat (counter s) \<le> t * iters n"
    using counter_le_increments [OF assms(4)] reachable_total_le [OF assms(4)] by (rule le_trans)
  have sc: "sint (counter s) = int (unat (counter s))" using up h by (rule sint_bounded)
  have lo: "min (iters n) 2 \<le> unat (counter s)" using assms(1) h assms(4) e by (rule race_final_lower)
  have it: "int (iters n) = sint n" using assms(2) by (rule iters_int)
  have "int (min (iters n) 2) \<le> int (unat (counter s))" using lo by (rule iffD2 [OF of_nat_le_iff])
  then show "min (sint n) 2 \<le> sint (counter s)" unfolding sc using it by simp
  have "int (unat (counter s)) \<le> int (t * iters n)" using up by (rule iffD2 [OF of_nat_le_iff])
  then show "sint (counter s) \<le> int t * sint n" unfolding sc using it by simp
  assume t1: "t = 1"
  have "counter s = of_nat (iters n)" using assms(4) e unfolding t1 by (rule alone_final)
  then show "sint (counter s) = sint n" using iters_word [OF assms(2)] by simp
qed

theorem race_final_bounds_witness:
  "run NONE 2 3 sched_lost init = Some lost_final \<and> mpc lost_final = MExit \<and>
   min (sint (3 :: int32)) 2 \<le> sint (counter lost_final) \<and>
   sint (counter lost_final) \<le> int 2 * sint (3 :: int32)"
proof -
  have "reachable NONE 2 3 lost_final" using reachable.start run_lost by (rule run_reachable)
  moreover have "mpc lost_final = MExit" by (simp add: lost_final_def)
  ultimately show ?thesis using race_final_bounds [of 2 3 lost_final] run_lost by simp
qed

text \<open>
  C3.  In mutex.cpp the threads that hold the lock are exactly those between the
  constructor and the destructor of the \<^verbatim>\<open>lock_guard\<close>, that is, at the read or the
  write of \<^verbatim>\<open>counter++\<close> or at the unlock; at most one thread is there at a time;
  and a thread at the loop test, waiting for the lock, at \<^verbatim>\<open>i++\<close> or returned does
  not hold it.  The lock is taken and released within each iteration: a thread
  waiting for a free lock takes it and goes on to the read, and cannot move while
  another holds it; the holder is never stuck, its read leaves the counter, its
  write adds one to the counter as it is, and its next step, the only way out of the
  increment body, frees the lock before \<^verbatim>\<open>i++\<close>, which leads back to the loop test.
\<close>

theorem mutex_serializes:
  assumes "reachable MUTEX t n s"
  shows "(\<forall>j<length (workers s). \<forall>k<length (workers s).
            in_cs (workers s ! j) \<and> in_cs (workers s ! k) \<longrightarrow> j = k) \<and>
         (\<forall>k<length (workers s). in_cs (workers s ! k) \<longleftrightarrow> mtx s = Some k) \<and>
         (\<forall>k<length (workers s).
            wpc (workers s ! k) \<in> {Test, Lock, Incr, Done} \<longrightarrow> mtx s \<noteq> Some k) \<and>
         (\<forall>k<length (workers s).
            (wpc (workers s ! k) = Lock \<and> mtx s = None \<longrightarrow>
               (\<exists>s'. step MUTEX t n (Worker k) s = Some s' \<and> wpc (workers s' ! k) = Load \<and>
                     mtx s' = Some k \<and> counter s' = counter s)) \<and>
            (wpc (workers s ! k) = Lock \<and> mtx s \<noteq> None \<longrightarrow>
               step MUTEX t n (Worker k) s = None) \<and>
            (wpc (workers s ! k) = Load \<longrightarrow>
               (\<exists>s'. step MUTEX t n (Worker k) s = Some s' \<and> wpc (workers s' ! k) = Store \<and>
                     mtx s' = Some k \<and> counter s' = counter s)) \<and>
            (wpc (workers s ! k) = Store \<longrightarrow>
               (\<exists>s'. step MUTEX t n (Worker k) s = Some s' \<and> wpc (workers s' ! k) = Unlock \<and>
                     mtx s' = Some k \<and> counter s' = counter s + 1)) \<and>
            (wpc (workers s ! k) = Unlock \<longrightarrow>
               (\<exists>s'. step MUTEX t n (Worker k) s = Some s' \<and> wpc (workers s' ! k) = Incr \<and>
                     mtx s' = None \<and> counter s' = counter s)) \<and>
            (wpc (workers s ! k) = Incr \<longrightarrow>
               (\<exists>s'. step MUTEX t n (Worker k) s = Some s' \<and> wpc (workers s' ! k) = Test \<and>
                     mtx s' = mtx s \<and> counter s' = counter s)))"
proof -
  have inv: "mutex_inv s" using assms by (rule reachable_mutex_inv)
  have a: "\<forall>j<length (workers s). \<forall>k<length (workers s).
            in_cs (workers s ! j) \<and> in_cs (workers s ! k) \<longrightarrow> j = k"
    using mutex_inv_excl [OF inv] by blast
  have b: "\<forall>k<length (workers s). in_cs (workers s ! k) \<longleftrightarrow> mtx s = Some k"
    using inv by (simp add: mutex_inv_def)
  have c: "\<forall>k<length (workers s).
            wpc (workers s ! k) \<in> {Test, Lock, Incr, Done} \<longrightarrow> mtx s \<noteq> Some k"
  proof (intro allI impI)
    fix k assume k: "k < length (workers s)" and p: "wpc (workers s ! k) \<in> {Test, Lock, Incr, Done}"
    have "\<not> in_cs (workers s ! k)" using p by (auto simp: in_cs_def)
    then show "mtx s \<noteq> Some k" using b k by simp
  qed
  show ?thesis
  proof (intro conjI)
    show "\<forall>j<length (workers s). \<forall>k<length (workers s).
            in_cs (workers s ! j) \<and> in_cs (workers s ! k) \<longrightarrow> j = k" by (rule a)
    show "\<forall>k<length (workers s). in_cs (workers s ! k) \<longleftrightarrow> mtx s = Some k" by (rule b)
    show "\<forall>k<length (workers s).
            wpc (workers s ! k) \<in> {Test, Lock, Incr, Done} \<longrightarrow> mtx s \<noteq> Some k" by (rule c)
  next
    show "\<forall>k<length (workers s).
            (wpc (workers s ! k) = Lock \<and> mtx s = None \<longrightarrow>
               (\<exists>s'. step MUTEX t n (Worker k) s = Some s' \<and> wpc (workers s' ! k) = Load \<and>
                     mtx s' = Some k \<and> counter s' = counter s)) \<and>
            (wpc (workers s ! k) = Lock \<and> mtx s \<noteq> None \<longrightarrow>
               step MUTEX t n (Worker k) s = None) \<and>
            (wpc (workers s ! k) = Load \<longrightarrow>
               (\<exists>s'. step MUTEX t n (Worker k) s = Some s' \<and> wpc (workers s' ! k) = Store \<and>
                     mtx s' = Some k \<and> counter s' = counter s)) \<and>
            (wpc (workers s ! k) = Store \<longrightarrow>
               (\<exists>s'. step MUTEX t n (Worker k) s = Some s' \<and> wpc (workers s' ! k) = Unlock \<and>
                     mtx s' = Some k \<and> counter s' = counter s + 1)) \<and>
            (wpc (workers s ! k) = Unlock \<longrightarrow>
               (\<exists>s'. step MUTEX t n (Worker k) s = Some s' \<and> wpc (workers s' ! k) = Incr \<and>
                     mtx s' = None \<and> counter s' = counter s)) \<and>
            (wpc (workers s ! k) = Incr \<longrightarrow>
               (\<exists>s'. step MUTEX t n (Worker k) s = Some s' \<and> wpc (workers s' ! k) = Test \<and>
                     mtx s' = mtx s \<and> counter s' = counter s))"
      using mutex_steps [OF inv] by blast
  qed
qed

theorem mutex_serializes_witness:
  "run MUTEX 2 1000000 sched_mutex init = Some mutex_before \<and>
   in_cs (workers mutex_before ! 0) \<and> \<not> in_cs (workers mutex_before ! 1) \<and>
   mtx mutex_before = Some 0 \<and>
   step MUTEX 2 1000000 (Worker 1) mutex_before = None \<and>
   step MUTEX 2 1000000 (Worker 0) mutex_before = Some mutex_after \<and>
   wpc (workers mutex_after ! 0) = Unlock \<and> mtx mutex_after = Some 0 \<and>
   step MUTEX 2 1000000 (Worker 0) mutex_after = Some mutex_released \<and>
   run MUTEX 2 1000000 sched_mutex_release init = Some mutex_released \<and>
   wpc (workers mutex_released ! 0) = Incr \<and> mtx mutex_released = None \<and>
   (\<exists>s'. step MUTEX 2 1000000 (Worker 1) mutex_released = Some s' \<and> mtx s' = Some 1)"
proof -
  have rb: "reachable MUTEX 2 1000000 mutex_before"
    using reachable.start run_mutex_before by (rule run_reachable)
  have ra: "reachable MUTEX 2 1000000 mutex_after" using rb step_mutex_before by (rule reachable.move)
  have rr: "reachable MUTEX 2 1000000 mutex_released"
    using reachable.start run_mutex_release by (rule run_reachable)
  have wb: "workers mutex_before = [\<lparr>wpc = Store, i = 0, tmp = 0\<rparr>, \<lparr>wpc = Lock, i = 0, tmp = 0\<rparr>]"
    "mtx mutex_before = Some 0" by (simp_all add: mutex_before_def)
  have wa: "workers mutex_after = [\<lparr>wpc = Unlock, i = 0, tmp = 0\<rparr>, \<lparr>wpc = Lock, i = 0, tmp = 0\<rparr>]"
    "mtx mutex_after = Some 0" by (simp_all add: mutex_after_def)
  have wr: "workers mutex_released = [\<lparr>wpc = Incr, i = 0, tmp = 0\<rparr>, \<lparr>wpc = Lock, i = 0, tmp = 0\<rparr>]"
    "mtx mutex_released = None" by (simp_all add: mutex_released_def)
  have c0: "in_cs (workers mutex_before ! 0)" using wb by (simp add: in_cs_def)
  have "\<forall>j<length (workers mutex_before). \<forall>k<length (workers mutex_before).
      in_cs (workers mutex_before ! j) \<and> in_cs (workers mutex_before ! k) \<longrightarrow> j = k"
    using mutex_serializes [OF rb] by blast
  then have c1: "\<not> in_cs (workers mutex_before ! 1)" using c0 wb by fastforce
  have "wpc (workers mutex_before ! 1) = Lock \<and> mtx mutex_before \<noteq> None \<longrightarrow>
      step MUTEX 2 1000000 (Worker 1) mutex_before = None"
    using mutex_serializes [OF rb] wb by simp
  then have blocked: "step MUTEX 2 1000000 (Worker 1) mutex_before = None" using wb by simp
  have "wpc (workers mutex_after ! 0) = Unlock \<longrightarrow>
      (\<exists>s'. step MUTEX 2 1000000 (Worker 0) mutex_after = Some s' \<and>
            wpc (workers s' ! 0) = Incr \<and> mtx s' = None \<and> counter s' = counter mutex_after)"
    using mutex_serializes [OF ra] wa by simp
  then have rel: "wpc (workers mutex_released ! 0) = Incr \<and> mtx mutex_released = None"
    using wa step_mutex_after by auto
  have "wpc (workers mutex_released ! 1) = Lock \<and> mtx mutex_released = None \<longrightarrow>
      (\<exists>s'. step MUTEX 2 1000000 (Worker 1) mutex_released = Some s' \<and>
            wpc (workers s' ! 1) = Load \<and> mtx s' = Some 1 \<and> counter s' = counter mutex_released)"
    using mutex_serializes [OF rr] wr by simp
  then have acq: "\<exists>s'. step MUTEX 2 1000000 (Worker 1) mutex_released = Some s' \<and> mtx s' = Some 1"
    using wr by auto
  show ?thesis
    using run_mutex_before c0 c1 wb(2) blocked step_mutex_before wa step_mutex_after
      run_mutex_release rel acq by simp
qed

text \<open>
  C4, as stated, fails.  In raceCondition.cpp with the constants of the source, after
  the schedule \<open>sched_stale\<close> the counter is 2 and thread 0 is about to write the 0
  it read earlier plus one: its step takes the counter from 2 down to 1.
\<close>

theorem stale_store_counterexample:
  "run NONE 2 1000000 sched_stale init = Some stale_before \<and>
   step NONE 2 1000000 (Worker 0) stale_before = Some stale_after \<and>
   sint (counter stale_before) = 2 \<and> sint (counter stale_after) = 1"
  using run_stale step_stale by (simp add: stale_before_def stale_after_def)

text \<open>
  C4, amended.  With a loop bound \<open>n \<ge> 0\<close> such that \<open>t * n\<close> fits an \<^verbatim>\<open>int\<close>, in every
  reachable state of each of the three programs the counter lies between 0 and
  \<open>t * n\<close>; and in mutex.cpp and atomic.cpp no step lowers the counter.
\<close>

theorem counter_bounded_and_monotone:
  assumes "0 \<le> sint n" and "int t * sint n < 2 ^ 31" and "reachable R t n s"
  shows "0 \<le> sint (counter s) \<and> sint (counter s) \<le> int t * sint n \<and>
         (R \<noteq> NONE \<longrightarrow>
            (\<forall>a s'. step R t n a s = Some s' \<longrightarrow> sint (counter s) \<le> sint (counter s')))"
proof -
  have h: "t * iters n < 2 ^ 31" using assms(1,2) by (rule bound_nat)
  have it: "int (iters n) = sint n" using assms(1) by (rule iters_int)
  have val: "sint (counter u) = int (unat (counter u)) \<and> unat (counter u) \<le> t * iters n"
    if "reachable R t n u" for u
  proof -
    have up: "unat (counter u) \<le> t * iters n"
      using counter_le_increments [OF that] reachable_total_le [OF that] by (rule le_trans)
    then show ?thesis using sint_bounded [OF up h] by simp
  qed
  have sc: "sint (counter s) = int (unat (counter s))" and up: "unat (counter s) \<le> t * iters n"
    using val [OF assms(3)] by simp_all
  have "int (unat (counter s)) \<le> int (t * iters n)" using up by (rule iffD2 [OF of_nat_le_iff])
  then have hi: "sint (counter s) \<le> int t * sint n" unfolding sc using it by simp
  have lo: "0 \<le> sint (counter s)" unfolding sc by (rule of_nat_0_le_iff)
  have mono: "sint (counter s) \<le> sint (counter s')"
    if ne: "R \<noteq> NONE" and st: "step R t n a s = Some s'" for a s'
  proof -
    have r': "reachable R t n s'" using assms(3) st by (rule reachable.move)
    have "R = MUTEX \<or> R = ATOMIC" using ne by (cases R) simp_all
    then have ex: "counter u = of_nat (increments u)" if "reachable R t n u" for u
      using that reachable_mutex reachable_atomic by blast
    have small: "unat (of_nat (increments u) :: int32) = increments u" if "reachable R t n u" for u
    proof -
      have "increments u < 2 ^ 31" using reachable_total_le [OF that] h by (rule le_less_trans)
      then have "increments u < 2 ^ LENGTH(32)" by simp
      then show ?thesis by (rule of_nat_inverse [OF refl])
    qed
    have inc: "increments s \<le> increments s'"
    proof (cases a)
      case Main
      then show ?thesis using st main_step_shared [of t s s'] by simp
    next
      case (Worker k)
      then have k: "k < length (workers s)" and w: "incrementCounter_step R n k s = Some s'"
        using st by (auto split: if_splits)
      have ok: "worker_ok R n (workers s ! k)" using reachable_workers_ok [OF assms(3)] k by simp
      show ?thesis using worker_step_total [OF w ok k] by simp
    qed
    have "unat (counter s) \<le> unat (counter s')"
      using inc ex [OF assms(3)] ex [OF r'] small [OF assms(3)] small [OF r'] by simp
    then have "int (unat (counter s)) \<le> int (unat (counter s'))" by (rule iffD2 [OF of_nat_le_iff])
    then show ?thesis using val [OF assms(3)] val [OF r'] by simp
  qed
  show ?thesis using lo hi mono by blast
qed

theorem counter_bounded_and_monotone_witness:
  "run MUTEX 2 1000000 sched_mutex init = Some mutex_before \<and>
   step MUTEX 2 1000000 (Worker 0) mutex_before = Some mutex_after \<and>
   sint (counter mutex_before) \<le> sint (counter mutex_after) \<and>
   sint (counter mutex_after) \<le> int 2 * sint (1000000 :: int32) \<and>
   sint (counter stale_before) \<le> int 2 * sint (1000000 :: int32)"
proof -
  have n: "0 \<le> sint (1000000 :: int32)" "int 2 * sint (1000000 :: int32) < 2 ^ 31" by simp_all
  have r: "reachable NONE 2 1000000 stale_before"
    using reachable.start run_stale by (rule run_reachable)
  have b: "reachable MUTEX 2 1000000 mutex_before"
    using reachable.start run_mutex_before by (rule run_reachable)
  have a: "reachable MUTEX 2 1000000 mutex_after" using b step_mutex_before by (rule reachable.move)
  have "sint (counter stale_before) \<le> int 2 * sint (1000000 :: int32)"
    using counter_bounded_and_monotone [OF n r] by blast
  moreover have "sint (counter mutex_after) \<le> int 2 * sint (1000000 :: int32)"
    using counter_bounded_and_monotone [OF n a] by blast
  moreover have "sint (counter mutex_before) \<le> sint (counter mutex_after)"
    using counter_bounded_and_monotone [OF n b] step_mutex_before by blast
  ultimately show ?thesis using run_mutex_before step_mutex_before by blast
qed

text \<open>
  C5.  One worker thread run alone from counter value \<open>c\<close>, with a loop bound
  \<open>n \<ge> 0\<close>, returns with the counter at \<open>c + n\<close> in 32-bit arithmetic, which is
  the integer \<open>c + n\<close> whenever that fits an \<^verbatim>\<open>int\<close>.  The loop terminates:
  \<open>incrementCounter_loop\<close> is a total function, by its termination proof.  (Lemma
  \<open>single_thread_agrees\<close>: with one thread, each of the three transition systems
  ends with the counter this function returns from 0.)
\<close>

theorem incrementCounter_adds:
  assumes "0 \<le> sint n"
  shows "incrementCounter n c = c + n \<and>
         (sint c + sint n < 2 ^ 31 \<longrightarrow> sint (incrementCounter n c) = sint c + sint n)"
proof -
  have "unat (0 :: int32) \<le> iters n" by simp
  then have "incrementCounter_loop n 0 c = c + of_nat (iters n - unat (0 :: int32))"
    by (rule incrementCounter_loop_eq)
  then have eq: "incrementCounter n c = c + n"
    using iters_word [OF assms] by (simp add: incrementCounter_def)
  have "- (2 ^ 31) \<le> sint c" using sint_ge [of c] by simp
  then have lo: "- (2 ^ 31) \<le> sint c + sint n" using assms by linarith
  show ?thesis using eq lo by (simp add: sint_add_small)
qed

theorem incrementCounter_adds_witness:
  "0 \<le> sint (1000000 :: int32) \<and> incrementCounter 1000000 0 = 1000000 \<and>
   sint (incrementCounter 1000000 7) = 1000007"
  using incrementCounter_adds [of 1000000 0] incrementCounter_adds [of 1000000 7] by simp

text \<open>
  C6, as stated, fails.  When the two threads insert in turn, piece by piece
  (schedule \<open>sched_mixed\<close>), the output is \<^verbatim>\<open>Thread Thread 12 is running\<close> followed by a
  line \<^verbatim>\<open> is running\<close>: neither line has the form \<^verbatim>\<open>Thread <id> is running\<close>, and the
  second contains no identifier.
\<close>

theorem print_lines_counterexample:
  "prun 2 sched_mixed pinit = Some mixed_final \<and> pmpc mixed_final = PExit \<and>
   pout mixed_final = ''Thread Thread 12 is running'' @ [CHR 0x0A] @ '' is running'' @ [CHR 0x0A] \<and>
   pout mixed_final \<noteq> ''Thread 1 is running'' @ [CHR 0x0A] @ ''Thread 2 is running'' @ [CHR 0x0A] \<and>
   pout mixed_final \<noteq> ''Thread 2 is running'' @ [CHR 0x0A] @ ''Thread 1 is running'' @ [CHR 0x0A]"
  using run_mixed by (simp add: mixed_final_def)

text \<open>
  C6, amended.  With two threads, every run of simpleMultiThreading.cpp ends; the
  output at the exit is an interleaving of the two threads' sequences of insertions
  (\<^verbatim>\<open>Thread \<close>, the identifier 1 or 2, \<^verbatim>\<open> is running\<close> and a newline), each in its own
  order, and holds exactly two newlines; \<^verbatim>\<open>main\<close> passes the join of a thread only
  once that thread has returned, and is past the joins only when both have.  The
  output is the one the order of the threads' moves gives: at the exit each thread
  has moved three times, and when the moves do not interleave, all of one thread's
  before all of the other's, the output is the line \<^verbatim>\<open>Thread 1 is running\<close> and the
  line \<^verbatim>\<open>Thread 2 is running\<close>, the line of the thread that moved first coming first.
\<close>

theorem print_messages_interleaved:
  assumes "preachable 2 s"
  shows "prun_ends 2 s \<and>
         (pmpc s = PExit \<longrightarrow>
            pout s \<in> concat ` shuffles (message 1) (message 2) \<and> count_lines (pout s) = 2) \<and>
         (\<forall>k. pmpc s = PJoin k \<longrightarrow> (\<forall>j<k. ppc (printers s ! j) = PDone)) \<and>
         (pmpc s = PReturn \<or> pmpc s = PExit \<longrightarrow> length (printers s) = 2 \<and> pall_done s) \<and>
         (\<exists>sched. prun 2 sched pinit = Some s) \<and>
         (\<forall>sched. prun 2 sched pinit = Some s \<longrightarrow>
            pout s = replay (said sched) (\<lambda>k. 0) \<and>
            (pmpc s = PExit \<longrightarrow> said sched \<in> shuffles [0, 0, 0] [1, 1, 1]) \<and>
            (said sched = [0, 0, 0, 1, 1, 1] \<longrightarrow>
               pout s = ''Thread 1 is running'' @ [CHR 0x0A] @ ''Thread 2 is running'' @ [CHR 0x0A]) \<and>
            (said sched = [1, 1, 1, 0, 0, 0] \<longrightarrow>
               pout s = ''Thread 2 is running'' @ [CHR 0x0A] @ ''Thread 1 is running'' @ [CHR 0x0A]))"
proof -
  have inv: "pmain_inv 2 s" using assms by (rule preachable_main_inv)
  have a: "prun_ends 2 s" using assms by (rule preachable_run_ends)
  have b: "pout s \<in> concat ` shuffles (message 1) (message 2) \<and> count_lines (pout s) = 2"
    if e: "pmpc s = PExit"
  proof -
    have "pout s \<in> concat ` shuffles (emitted 0 s) (emitted 1 s)"
      using preachable_out_inv [OF assms] by (simp add: pout_inv_def)
    then have m: "pout s \<in> concat ` shuffles (message 1) (message 2)"
      using exit_emitted [OF assms e] by simp
    then obtain zs where zs: "zs \<in> shuffles (message 1) (message 2)" "pout s = concat zs" by auto
    have "count_lines (pout s) = sum_list (map (\<lambda>z. length (filter (\<lambda>c. c = CHR 0x0A) z)) zs)"
      unfolding count_lines_def zs(2) by (rule newlines_concat)
    also have "\<dots> = sum_list (map (\<lambda>z. length (filter (\<lambda>c. c = CHR 0x0A) z)) (message 1)) +
        sum_list (map (\<lambda>z. length (filter (\<lambda>c. c = CHR 0x0A) z)) (message 2))"
      using zs(1) by (rule shuffles_sum)
    also have "\<dots> = 2" by (simp add: message_1_2)
    finally show ?thesis using m by simp
  qed
  have c: "\<forall>k. pmpc s = PJoin k \<longrightarrow> (\<forall>j<k. ppc (printers s ! j) = PDone)"
    using inv by (auto simp: pmain_inv_def)
  have d: "pmpc s = PReturn \<or> pmpc s = PExit \<longrightarrow> length (printers s) = 2 \<and> pall_done s"
    using inv by (auto simp: pmain_inv_def)
  have e: "\<exists>sched. prun 2 sched pinit = Some s" using assms by (rule preachable_run)
  have f: "pout s = replay (said sched) (\<lambda>k. 0) \<and>
            (pmpc s = PExit \<longrightarrow> said sched \<in> shuffles [0, 0, 0] [1, 1, 1]) \<and>
            (said sched = [0, 0, 0, 1, 1, 1] \<longrightarrow>
               pout s = ''Thread 1 is running'' @ [CHR 0x0A] @ ''Thread 2 is running'' @ [CHR 0x0A]) \<and>
            (said sched = [1, 1, 1, 0, 0, 0] \<longrightarrow>
               pout s = ''Thread 2 is running'' @ [CHR 0x0A] @ ''Thread 1 is running'' @ [CHR 0x0A])"
    if r: "prun 2 sched pinit = Some s" for sched
  proof -
    have "pout s = pout pinit @ replay (said sched) (inserted pinit)"
      using preachable.pstart r by (rule run_output)
    moreover have "pout pinit = []" by (simp add: pinit_def)
    ultimately have o: "pout s = replay (said sched) (\<lambda>k. 0)"
      by (simp only: inserted_pinit append_Nil)
    have g: "pmpc s = PExit \<longrightarrow> said sched \<in> shuffles [0, 0, 0] [1, 1, 1]"
      using said_at_exit [OF r] by blast
    show ?thesis using o g replay_in_turn by simp
  qed
  show ?thesis using a b c d e f by blast
qed

theorem print_messages_interleaved_witness:
  "prun 2 sched_in_turn pinit = Some in_turn_final \<and> pmpc in_turn_final = PExit \<and>
   said sched_in_turn = [0, 0, 0, 1, 1, 1] \<and>
   pout in_turn_final = ''Thread 1 is running'' @ [CHR 0x0A] @ ''Thread 2 is running'' @ [CHR 0x0A] \<and>
   prun 2 sched_in_turn_rev pinit = Some in_turn_rev_final \<and> pmpc in_turn_rev_final = PExit \<and>
   said sched_in_turn_rev = [1, 1, 1, 0, 0, 0] \<and>
   pout in_turn_rev_final = ''Thread 2 is running'' @ [CHR 0x0A] @ ''Thread 1 is running'' @ [CHR 0x0A] \<and>
   pout in_turn_final \<in> concat ` shuffles (message 1) (message 2) \<and>
   count_lines (pout in_turn_final) = 2 \<and>
   count_lines (pout in_turn_rev_final) = 2 \<and>
   count_lines (pout mixed_final) = 2 \<and>
   said sched_mixed \<in> shuffles [0, 0, 0] [1, 1, 1]"
proof -
  have r: "preachable 2 in_turn_final" using preachable.pstart run_in_turn by (rule prun_reachable)
  have e: "pmpc in_turn_final = PExit" by (simp add: in_turn_final_def)
  have r1: "preachable 2 in_turn_rev_final"
    using preachable.pstart run_in_turn_rev by (rule prun_reachable)
  have e1: "pmpc in_turn_rev_final = PExit" by (simp add: in_turn_rev_final_def)
  have r2: "preachable 2 mixed_final" using preachable.pstart run_mixed by (rule prun_reachable)
  have e2: "pmpc mixed_final = PExit" by (simp add: mixed_final_def)
  have s0: "said sched_in_turn = [0, 0, 0, 1, 1, 1]" by (simp add: sched_in_turn_def)
  have s1: "said sched_in_turn_rev = [1, 1, 1, 0, 0, 0]" by (simp add: sched_in_turn_rev_def)
  have a: "pout in_turn_final \<in> concat ` shuffles (message 1) (message 2) \<and>
      count_lines (pout in_turn_final) = 2"
    using print_messages_interleaved [OF r] e by blast
  have b: "pout in_turn_final =
      ''Thread 1 is running'' @ [CHR 0x0A] @ ''Thread 2 is running'' @ [CHR 0x0A]"
    using print_messages_interleaved [OF r] run_in_turn s0 by blast
  have c: "pout in_turn_rev_final =
      ''Thread 2 is running'' @ [CHR 0x0A] @ ''Thread 1 is running'' @ [CHR 0x0A]"
    using print_messages_interleaved [OF r1] run_in_turn_rev s1 by blast
  have d: "count_lines (pout in_turn_rev_final) = 2"
    using print_messages_interleaved [OF r1] e1 by blast
  have f: "count_lines (pout mixed_final) = 2"
    using print_messages_interleaved [OF r2] e2 by blast
  have g: "said sched_mixed \<in> shuffles [0, 0, 0] [1, 1, 1]"
    using print_messages_interleaved [OF r2] run_mixed e2 by blast
  show ?thesis using run_in_turn e s0 b run_in_turn_rev e1 s1 c a d f g by simp
qed

text \<open>
  C7.  With two threads and a loop bound of 0, in each of the three counter programs
  the counter is 0 in every reachable state, every run ends, and the line printed
  is \<^verbatim>\<open>Final counter value: 0\<close>.
\<close>

theorem zero_iterations:
  assumes "reachable R 2 0 s"
  shows "run_ends R 2 0 s \<and> counter s = 0 \<and>
         (mpc s = MExit \<longrightarrow> out s = ''Final counter value: 0'' @ [CHR 0x0A])"
proof -
  have "unat (counter s) \<le> increments s" using assms by (rule counter_le_increments)
  moreover have "increments s \<le> 2 * iters 0" using assms by (rule reachable_total_le)
  ultimately have "unat (counter s) = 0" by simp
  then have c: "counter s = 0" by (simp add: unat_eq_0)
  have "out s = print_counter (counter s)" if "mpc s = MExit"
    using exited_all_done [OF assms that] by simp
  then have "mpc s = MExit \<longrightarrow> out s = ''Final counter value: 0'' @ [CHR 0x0A]"
    using c by (simp add: print_counter_def show_int_def show_nat.simps digit_char_def)
  then show ?thesis using c reachable_run_ends [OF assms] by simp
qed

theorem zero_iterations_witness:
  "(\<exists>s. reachable NONE 2 0 s \<and> mpc s = MExit \<and> sint (counter s) = 0) \<and>
   (\<exists>s. reachable MUTEX 2 0 s \<and> mpc s = MExit \<and> sint (counter s) = 0) \<and>
   (\<exists>s. reachable ATOMIC 2 0 s \<and> mpc s = MExit \<and> sint (counter s) = 0)"
proof -
  have "\<exists>s. reachable R 2 0 s \<and> mpc s = MExit \<and> sint (counter s) = 0" for R
  proof -
    obtain s where s: "reachable R 2 0 s" "mpc s = MExit"
      using exit_reachable [OF reachable.start] by blast
    have "counter s = 0" using zero_iterations [OF s(1)] by simp
    then show ?thesis using s by auto
  qed
  then show ?thesis by blast
qed

text \<open>
  C8.  Each of the three counter programs, when it has returned from \<^verbatim>\<open>main\<close>, has
  written exactly \<^verbatim>\<open>Final counter value: \<close>, the decimal value of the counter and a
  newline: one line.  Nothing is written before all threads have been joined, the
  value printed is the counter's once every thread has returned, and the exit code,
  set only by the return from \<^verbatim>\<open>main\<close>, is 0; so is simpleMultiThreading.cpp's.
\<close>

theorem final_line_and_exit_code:
  assumes "reachable R t n s" and "preachable u p"
  shows "(mpc s = MExit \<longrightarrow>
            out s = ''Final counter value: '' @ show_int (sint (counter s)) @ [CHR 0x0A] \<and>
            count_lines (out s) = 1 \<and> exit_code s = Some 0) \<and>
         (mpc s \<noteq> MExit \<longrightarrow> exit_code s = None) \<and>
         (mpc s = MPrint \<or> mpc s = MReturn \<or> mpc s = MExit \<longrightarrow>
            length (workers s) = t \<and> all_done s) \<and>
         (mpc s = MSpawn \<or> (\<exists>k. mpc s = MJoin k) \<or> mpc s = MPrint \<longrightarrow> out s = []) \<and>
         (pmpc p = PExit \<longrightarrow> pexit_code p = Some 0) \<and>
         (pmpc p \<noteq> PExit \<longrightarrow> pexit_code p = None)"
proof -
  have inv: "main_inv t s" using assms(1) by (rule reachable_main_inv)
  have pinv: "pmain_inv u p" using assms(2) by (rule preachable_main_inv)
  have a: "out s = ''Final counter value: '' @ show_int (sint (counter s)) @ [CHR 0x0A] \<and>
            count_lines (out s) = 1 \<and> exit_code s = Some 0" if "mpc s = MExit"
  proof -
    have o: "out s = print_counter (counter s)" "exit_code s = Some 0"
      using inv that by (simp_all add: main_inv_def)
    then have "count_lines (out s) = 1" by (simp add: count_lines_print_counter)
    then show ?thesis using o by (simp add: print_counter_def)
  qed
  have b: "mpc s \<noteq> MExit \<longrightarrow> exit_code s = None"
    using inv by (cases "mpc s") (simp_all add: main_inv_def)
  have c: "mpc s = MPrint \<or> mpc s = MReturn \<or> mpc s = MExit \<longrightarrow>
            length (workers s) = t \<and> all_done s"
    using inv by (auto simp: main_inv_def)
  have d: "mpc s = MSpawn \<or> (\<exists>k. mpc s = MJoin k) \<or> mpc s = MPrint \<longrightarrow> out s = []"
    using inv by (auto simp: main_inv_def)
  have e: "pmpc p = PExit \<longrightarrow> pexit_code p = Some 0"
    using pinv by (auto simp: pmain_inv_def)
  have f: "pmpc p \<noteq> PExit \<longrightarrow> pexit_code p = None"
    using pinv by (cases "pmpc p") (simp_all add: pmain_inv_def)
  show ?thesis using a b c d e f by blast
qed

theorem final_line_and_exit_code_witness:
  "run NONE 2 3 sched_lost init = Some lost_final \<and> mpc lost_final = MExit \<and>
   out lost_final = ''Final counter value: '' @ show_int (sint (counter lost_final)) @ [CHR 0x0A] \<and>
   out lost_final = ''Final counter value: 2'' @ [CHR 0x0A] \<and>
   count_lines (out lost_final) = 1 \<and> exit_code lost_final = Some 0 \<and>
   exit_code stale_before = None \<and>
   prun 2 sched_in_turn pinit = Some in_turn_final \<and> pexit_code in_turn_final = Some 0"
proof -
  have r: "reachable NONE 2 3 lost_final" using reachable.start run_lost by (rule run_reachable)
  have r': "reachable NONE 2 1000000 stale_before"
    using reachable.start run_stale by (rule run_reachable)
  have p: "preachable 2 in_turn_final" using preachable.pstart run_in_turn by (rule prun_reachable)
  have e: "mpc lost_final = MExit" by (simp add: lost_final_def)
  have e': "mpc stale_before \<noteq> MExit" by (simp add: stale_before_def)
  have pe: "pmpc in_turn_final = PExit" by (simp add: in_turn_final_def)
  have "out lost_final = ''Final counter value: '' @ show_int (sint (counter lost_final)) @ [CHR 0x0A] \<and>
      count_lines (out lost_final) = 1 \<and> exit_code lost_final = Some 0 \<and>
      pexit_code in_turn_final = Some 0"
    using final_line_and_exit_code [OF r p] e pe by blast
  moreover have "exit_code stale_before = None"
    using final_line_and_exit_code [OF r' p] e' by blast
  moreover have "out lost_final = ''Final counter value: 2'' @ [CHR 0x0A]"
    by (simp add: lost_final_def)
  ultimately show ?thesis using run_lost run_in_turn e by blast
qed

text \<open>
  C10.  With the constants of the sources (two threads, 1000000 iterations each), in
  each of the three programs the counter stays between 0 and 2000000, a value an
  \<^verbatim>\<open>int\<close> represents, and neither the write of \<^verbatim>\<open>counter++\<close> nor \<^verbatim>\<open>fetch_add\<close> ever wraps
  around: the value they add one to is below the largest \<^verbatim>\<open>int\<close>.
\<close>

theorem reference_run_no_overflow:
  assumes "reachable R 2 1000000 s"
  shows "0 \<le> sint (counter s) \<and> sint (counter s) \<le> 2000000 \<and>
         sint (2000000 :: int32) = 2000000 \<and>
         (\<forall>k<length (workers s). wpc (workers s ! k) = Store \<longrightarrow>
            sint (tmp (workers s ! k) + 1) = sint (tmp (workers s ! k)) + 1) \<and>
         (\<forall>k<length (workers s). wpc (workers s ! k) = FetchAdd \<longrightarrow>
            sint (counter s + 1) = sint (counter s) + 1)"
proof -
  have le: "increments s \<le> 2000000" using reachable_total_le [OF assms] by simp
  have "unat (counter s) \<le> increments s" using assms by (rule counter_le_increments)
  then have "unat (counter s) \<le> 2000000" using le by simp
  then have c: "sint (counter s + 1) = sint (counter s) + 1 \<and> 0 \<le> sint (counter s) \<and>
      sint (counter s) \<le> int 2000000"
    by (rule sint_succ_small) simp
  have t: "sint (tmp (workers s ! k) + 1) = sint (tmp (workers s ! k)) + 1"
    if "k < length (workers s)" "wpc (workers s ! k) = Store" for k
  proof -
    have "unat (tmp (workers s ! k)) \<le> increments s" using assms that by (rule tmp_le_increments)
    then have "unat (tmp (workers s ! k)) \<le> 2000000" using le by simp
    then have "sint (tmp (workers s ! k) + 1) = sint (tmp (workers s ! k)) + 1 \<and>
        0 \<le> sint (tmp (workers s ! k)) \<and> sint (tmp (workers s ! k)) \<le> int 2000000"
      by (rule sint_succ_small) simp
    then show ?thesis by simp
  qed
  show ?thesis using c t by simp
qed

theorem reference_run_no_overflow_witness:
  "(\<exists>s. run NONE 2 1000000 sched_none_store init = Some s \<and> wpc (workers s ! 0) = Store \<and>
        sint (tmp (workers s ! 0) + 1) = sint (tmp (workers s ! 0)) + 1 \<and>
        sint (counter s) \<le> 2000000) \<and>
   (\<exists>s. run ATOMIC 2 1000000 sched_atomic_add init = Some s \<and> wpc (workers s ! 1) = FetchAdd \<and>
        sint (counter s + 1) = sint (counter s) + 1)"
proof (intro conjI)
  obtain s where r: "run NONE 2 1000000 sched_none_store init = Some s"
    and w: "workers s = [\<lparr>wpc = Store, i = 1, tmp = 1\<rparr>, \<lparr>wpc = Test, i = 0, tmp = 0\<rparr>]"
    using run_none_store_example by simp
  have "reachable NONE 2 1000000 s" using reachable.start r by (rule run_reachable)
  then have "sint (counter s) \<le> 2000000 \<and>
         (\<forall>k<length (workers s). wpc (workers s ! k) = Store \<longrightarrow>
            sint (tmp (workers s ! k) + 1) = sint (tmp (workers s ! k)) + 1)"
    using reference_run_no_overflow by blast
  then show "\<exists>s. run NONE 2 1000000 sched_none_store init = Some s \<and> wpc (workers s ! 0) = Store \<and>
        sint (tmp (workers s ! 0) + 1) = sint (tmp (workers s ! 0)) + 1 \<and>
        sint (counter s) \<le> 2000000"
    using r w by auto
next
  obtain s where r: "run ATOMIC 2 1000000 sched_atomic_add init = Some s"
    and w: "workers s = [\<lparr>wpc = Test, i = 0, tmp = 0\<rparr>, \<lparr>wpc = FetchAdd, i = 1, tmp = 0\<rparr>]"
    using run_atomic_add_example by simp
  have "reachable ATOMIC 2 1000000 s" using reachable.start r by (rule run_reachable)
  then have "\<forall>k<length (workers s). wpc (workers s ! k) = FetchAdd \<longrightarrow>
            sint (counter s + 1) = sint (counter s) + 1"
    using reference_run_no_overflow by blast
  then show "\<exists>s. run ATOMIC 2 1000000 sched_atomic_add init = Some s \<and>
        wpc (workers s ! 1) = FetchAdd \<and> sint (counter s + 1) = sint (counter s) + 1"
    using r w by auto
qed

end
